theory Spec2Isabelle
  imports Complex_Main "HOL-Library.Sublist" "HOL-Library.Multiset"
begin

section \<open>Strings\<close>

text \<open>
  File names, labels and queries are JavaScript strings. They are modelled as
  \<^typ>\<open>string\<close>, the bytes of their UTF-8 encoding: a character of ASCII is one byte below
  128, any other character is a sequence of bytes from 128 on. On well-formed strings the
  substring and suffix tests give the same answers on the bytes as on the code units.
\<close>

definition isASCII :: "string \<Rightarrow> bool" where
  "isASCII s = list_all (\<lambda>c. (of_char c :: nat) < 128) s"

definition upper_char :: "char \<Rightarrow> char" where
  "upper_char c =
     (let n = (of_char c :: nat) in if 97 \<le> n \<and> n \<le> 122 then char_of (n - 32) else c)"

definition lower_char :: "char \<Rightarrow> char" where
  "lower_char c =
     (let n = (of_char c :: nat) in if 65 \<le> n \<and> n \<le> 90 then char_of (n + 32) else c)"

text \<open>
  \<^verbatim>\<open>s.toUpperCase()\<close>, which the code uses to look for the ASCII markers of the classifier:
  the ASCII letters are mapped and every other byte is left as it is. A character outside
  ASCII that JavaScript upper-cases to an ASCII letter (the dotless i) is not mapped here.
\<close>

definition toUpperCase :: "string \<Rightarrow> string" where
  "toUpperCase s = map upper_char s"

text \<open>
  \<^verbatim>\<open>s.toLowerCase()\<close>. On a string of ASCII characters it maps the letters \<open>A\<close> to \<open>Z\<close> one
  by one. On any other string it is the lower-casing of the Unicode standard, which is not
  a letter-by-letter map (the Greek capital sigma becomes one of two letters, by its place
  in the word); it is the parameter \<open>ul\<close>.
\<close>

definition toLowerCase :: "(string \<Rightarrow> string) \<Rightarrow> string \<Rightarrow> string" where
  "toLowerCase ul s = (if isASCII s then map lower_char s else ul s)"

text \<open>\<^verbatim>\<open>s.includes(q)\<close>: scan the start positions of \<open>s\<close> from the left.\<close>

fun includes_str :: "string \<Rightarrow> string \<Rightarrow> bool" where
  "includes_str [] q = (q = [])"
| "includes_str (c # cs) q = (prefix q (c # cs) \<or> includes_str cs q)"

text \<open>\<^verbatim>\<open>s.endsWith(t)\<close>.\<close>

definition endsWith :: "string \<Rightarrow> string \<Rightarrow> bool" where
  "endsWith s t = suffix t s"

text \<open>\<^verbatim>\<open>n.toString()\<close> for a non-negative integer: its decimal digits.\<close>

definition digit_char :: "nat \<Rightarrow> char" where
  "digit_char d = char_of (48 + d)"

fun toString :: "nat \<Rightarrow> string" where
  "toString n = (if n < 10 then [digit_char n] else toString (n div 10) @ [digit_char (n mod 10)])"

declare toString.simps [simp del]

section \<open>Data model\<close>

text \<open>
  Page counts and tallies are non-negative integers, modelled as \<^typ>\<open>nat\<close>: JavaScript
  numbers are exact on them up to \<open>2\<^sup>5\<^sup>3\<close>.
\<close>

record PageCounts =
  WIDE :: nat
  A3 :: nat
  A4 :: nat

datatype FileType = T_WIDE | T_A3 | T_A4

text \<open>The string behind each member of the union type \<^verbatim>\<open>'WIDE' | 'A3' | 'A4'\<close>.\<close>

fun type_label :: "FileType \<Rightarrow> string" where
  "type_label T_WIDE = ''WIDE''"
| "type_label T_A3 = ''A3''"
| "type_label T_A4 = ''A4''"

subsection \<open>The file-system and PDF collaborators\<close>

text \<open>
  What the collaborators answer for one directory entry is part of the entry:
  \<^verbatim>\<open>getFile()\<close> rejects or gives a file; the file's \<^verbatim>\<open>arrayBuffer()\<close> rejects or gives
  bytes; \<^verbatim>\<open>getDocument\<close> on those bytes rejects or gives a document with a page count.
  \<open>lastModifiedGB\<close> is the text \<^verbatim>\<open>toLocaleDateString('en-GB', ...)\<close> gives for the
  file's modification time (such as \<open>''02/11/2026''\<close>). \<^verbatim>\<open>destroy()\<close> on a document resolves
  or rejects.
\<close>

datatype DestroyOutcome = Destroyed | DestroyError

datatype DocumentOutcome = ParseError | Document (numPages: nat) (destroy: DestroyOutcome)

datatype BufferOutcome = ReadError | Bytes DocumentOutcome

record File =
  lastModifiedGB :: string
  arrayBuffer :: BufferOutcome

datatype GetFileOutcome = GetFileError | GotFile File

datatype HandleKind = KFile | KDirectory

record FileSystemHandle =
  kind :: HandleKind
  name :: string
  getFile :: GetFileOutcome

record FileInfo =
  name :: string
  pages :: nat
  type :: FileType
  createdAt :: string
  fileHandle :: FileSystemHandle

text \<open>The calls made on the collaborators, in the order they are made.\<close>

datatype Event =
    EvGetFile string
  | EvArrayBuffer string
  | EvGetDocument string
  | EvDestroy string
  | EvConsoleError string
  | EvAlert string

section \<open>Processing one file\<close>

text \<open>\<^verbatim>\<open>formatDate\<close>: the en-GB date text with every slash replaced by a hyphen.\<close>

definition formatDate :: "string \<Rightarrow> string" where
  "formatDate d = map (\<lambda>c. if c = CHR ''/'' then CHR ''-'' else c) d"

text \<open>
  The classification chain of \<^verbatim>\<open>processPDFFile\<close>, on the upper-cased name: the first of
  the markers \<open>-WIDE\<close>, \<open>-A3\<close>, \<open>-A4\<close> that occurs decides.
\<close>

definition classify :: "string \<Rightarrow> FileType option" where
  "classify fileName =
     (if includes_str fileName ''-WIDE'' then Some T_WIDE
      else if includes_str fileName ''-A3'' then Some T_A3
      else if includes_str fileName ''-A4'' then Some T_A4
      else None)"

fun addPages :: "FileType \<Rightarrow> nat \<Rightarrow> PageCounts \<Rightarrow> PageCounts" where
  "addPages T_WIDE n counts = counts\<lparr>WIDE := WIDE counts + n\<rparr>"
| "addPages T_A3 n counts = counts\<lparr>A3 := A3 counts + n\<rparr>"
| "addPages T_A4 n counts = counts\<lparr>A4 := A4 counts + n\<rparr>"

text \<open>
  The result of \<^verbatim>\<open>processPDFFile\<close>: it returns a record or null, or it throws; with the
  counts object as the call left it and the collaborator calls it made. \<^verbatim>\<open>getFile()\<close> is
  awaited before the \<^verbatim>\<open>try\<close> block, so its rejection is thrown on. Inside the block the
  counts are incremented before \<^verbatim>\<open>destroy()\<close> is awaited, so a rejection of \<^verbatim>\<open>destroy()\<close>
  is caught with the counts already changed.
\<close>

datatype 'a Completion = Returned 'a | Thrown string

record FileStep =
  completion :: "FileInfo option Completion"
  countsAfter :: PageCounts
  events :: "Event list"

definition processPDFFile :: "FileSystemHandle \<Rightarrow> PageCounts \<Rightarrow> FileStep" where
  "processPDFFile fh counts =
     (if kind fh = KFile \<and> endsWith (FileSystemHandle.name fh) ''.pdf'' then
        let fileName = toUpperCase (FileSystemHandle.name fh) in
        case getFile fh of
          GetFileError \<Rightarrow>
            \<lparr>completion = Thrown ''getFile'', countsAfter = counts,
             events = [EvGetFile (FileSystemHandle.name fh)]\<rparr>
        | GotFile file \<Rightarrow>
            (case arrayBuffer file of
               ReadError \<Rightarrow>
                 \<lparr>completion = Returned None, countsAfter = counts,
                  events = [EvGetFile (FileSystemHandle.name fh),
                            EvArrayBuffer (FileSystemHandle.name fh),
                            EvConsoleError fileName]\<rparr>
             | Bytes ParseError \<Rightarrow>
                 \<lparr>completion = Returned None, countsAfter = counts,
                  events = [EvGetFile (FileSystemHandle.name fh),
                            EvArrayBuffer (FileSystemHandle.name fh),
                            EvGetDocument (FileSystemHandle.name fh),
                            EvConsoleError fileName]\<rparr>
             | Bytes (Document n d) \<Rightarrow>
                 (case classify fileName of
                    None \<Rightarrow>
                      (case d of
                         Destroyed \<Rightarrow>
                           \<lparr>completion = Returned None, countsAfter = counts,
                            events = [EvGetFile (FileSystemHandle.name fh),
                                      EvArrayBuffer (FileSystemHandle.name fh),
                                      EvGetDocument (FileSystemHandle.name fh),
                                      EvDestroy (FileSystemHandle.name fh)]\<rparr>
                       | DestroyError \<Rightarrow>
                           \<lparr>completion = Returned None, countsAfter = counts,
                            events = [EvGetFile (FileSystemHandle.name fh),
                                      EvArrayBuffer (FileSystemHandle.name fh),
                                      EvGetDocument (FileSystemHandle.name fh),
                                      EvDestroy (FileSystemHandle.name fh),
                                      EvConsoleError fileName]\<rparr>)
                  | Some t \<Rightarrow>
                      (case d of
                         Destroyed \<Rightarrow>
                           \<lparr>completion = Returned (Some
                              \<lparr>name = FileSystemHandle.name fh, pages = n, type = t,
                               createdAt = formatDate (lastModifiedGB file), fileHandle = fh\<rparr>),
                            countsAfter = addPages t n counts,
                            events = [EvGetFile (FileSystemHandle.name fh),
                                      EvArrayBuffer (FileSystemHandle.name fh),
                                      EvGetDocument (FileSystemHandle.name fh),
                                      EvDestroy (FileSystemHandle.name fh)]\<rparr>
                       | DestroyError \<Rightarrow>
                           \<lparr>completion = Returned None, countsAfter = addPages t n counts,
                            events = [EvGetFile (FileSystemHandle.name fh),
                                      EvArrayBuffer (FileSystemHandle.name fh),
                                      EvGetDocument (FileSystemHandle.name fh),
                                      EvDestroy (FileSystemHandle.name fh),
                                      EvConsoleError fileName]\<rparr>)))
      else \<lparr>completion = Returned None, countsAfter = counts, events = []\<rparr>)"

section \<open>Application state\<close>

record ProgressInfo =
  processed :: nat
  total :: nat
  currentBatch :: nat
  totalBatches :: nat

datatype SortField = SF_name | SF_type | SF_pages | SF_createdAt

datatype SortDirection = Asc | Desc

text \<open>The state cells of the component that the counting pipeline and the table use.\<close>

record AppState =
  pageCounts :: PageCounts
  fileList :: "FileInfo list"
  loading :: bool
  progress :: "ProgressInfo option"
  currentPage :: int
  sortField :: SortField
  sortDirection :: SortDirection
  searchQuery :: string

text \<open>
  During a run the state cells are joined by the run's own variables \<open>counts\<close> and
  \<open>processedFiles\<close>, and by the log of collaborator calls.
\<close>

record RunState = AppState +
  counts :: PageCounts
  processedFiles :: "FileInfo list"
  log :: "Event list"

definition initialApp :: AppState where
  "initialApp =
     \<lparr>pageCounts = \<lparr>WIDE = 0, A3 = 0, A4 = 0\<rparr>, fileList = [], loading = False,
      progress = None, currentPage = 1, sortField = SF_name, sortDirection = Asc,
      searchQuery = []\<rparr>"

section \<open>The batch runner\<close>

text \<open>
  \<^verbatim>\<open>Number(import.meta.env.VITE_BATCH_SIZE) || 3\<close>, for a variable that is unset or not
  a number (\<open>None\<close>) or a non-negative integer.
\<close>

definition BATCH_SIZE :: "nat option \<Rightarrow> nat" where
  "BATCH_SIZE env = (case env of None \<Rightarrow> 3 | Some n \<Rightarrow> if n = 0 then 3 else n)"

text \<open>\<^verbatim>\<open>xs.slice(start, fin)\<close>, negative indices counting from the end.\<close>

definition slice :: "'a list \<Rightarrow> int \<Rightarrow> int \<Rightarrow> 'a list" where
  "slice xs start fin =
     (let len = int (length xs);
          k = (if start < 0 then max (len + start) 0 else min start len);
          final = (if fin < 0 then max (len + fin) 0 else min fin len)
      in take (nat (final - k)) (drop (nat k) xs))"

text \<open>\<^verbatim>\<open>Math.ceil(n / d)\<close> on two lengths.\<close>

definition ceilDiv :: "nat \<Rightarrow> nat \<Rightarrow> nat" where
  "ceilDiv n d = nat \<lceil>real n / real d\<rceil>"

text \<open>
  The loop over the files of one batch. A record is pushed on \<open>processedFiles\<close> and copies
  of the list and of the counts are published; a throw of \<open>processPDFFile\<close> leaves the loop.
  The pauses after each file and after each batch pass no data and are left out.
\<close>

fun batchFiles :: "FileSystemHandle list \<Rightarrow> RunState \<Rightarrow> unit Completion \<times> RunState" where
  "batchFiles [] st = (Returned (), st)"
| "batchFiles (fh # rest) st =
     (let step = processPDFFile fh (counts st);
          st1 = st\<lparr>counts := countsAfter step, log := log st @ events step\<rparr>
      in case completion step of
           Thrown e \<Rightarrow> (Thrown e, st1)
         | Returned None \<Rightarrow> batchFiles rest st1
         | Returned (Some result) \<Rightarrow>
             batchFiles rest
               (st1\<lparr>processedFiles := processedFiles st1 @ [result],
                    fileList := processedFiles st1 @ [result],
                    pageCounts := counts st1\<rparr>))"

definition processPDFBatch ::
  "nat \<Rightarrow> FileSystemHandle list \<Rightarrow> nat \<Rightarrow> nat \<Rightarrow> RunState \<Rightarrow> unit Completion \<times> RunState" where
  "processPDFBatch B pdfFiles cb tb st =
     (case batchFiles pdfFiles st of
        (Thrown e, st') \<Rightarrow> (Thrown e, st')
      | (Returned u, st') \<Rightarrow>
          (Returned (),
           st'\<lparr>progress := Some \<lparr>processed = length (processedFiles st'), total = tb * B,
                                 currentBatch = cb, totalBatches = tb\<rparr>\<rparr>))"

text \<open>
  The loop over the batches, \<^verbatim>\<open>for (let i = 0; i < pdfFiles.length; i += BATCH_SIZE)\<close>.
  \<open>None\<close> stands for a loop that never ends.
\<close>

partial_function (option) batchLoop ::
  "nat \<Rightarrow> FileSystemHandle list \<Rightarrow> nat \<Rightarrow> nat \<Rightarrow> RunState \<Rightarrow> (unit Completion \<times> RunState) option" where
  "batchLoop B pdfFiles tb i st =
     (if i < length pdfFiles then
        (case processPDFBatch B (slice pdfFiles (int i) (int i + int B)) (i div B + 1) tb st of
           (Thrown e, st') \<Rightarrow> Some (Thrown e, st')
         | (Returned u, st') \<Rightarrow> batchLoop B pdfFiles tb (i + B) st')
      else Some (Returned (), st))"

text \<open>
  The directory picker rejects (the user cancels) or gives a directory, whose entries come
  in the order of its iteration. \<^verbatim>\<open>config.useDocsPath\<close> is the constant of \<^verbatim>\<open>config.ts\<close>;
  \<^verbatim>\<open>checkPathExists\<close> opens the picker a second time and, when that rejects, writes to the
  console and answers false.
\<close>

datatype PickerOutcome = PickerRejected | Picked "FileSystemHandle list"

definition useDocsPath :: bool where
  "useDocsPath = True"

definition checkPathExists :: "PickerOutcome \<Rightarrow> bool \<times> Event list" where
  "checkPathExists p =
     (case p of
        PickerRejected \<Rightarrow> (False, [EvConsoleError ''Error checking path''])
      | Picked h \<Rightarrow> (True, []))"

datatype RunOutcome = Completed | Aborted string

text \<open>
  The state a run starts from: \<^verbatim>\<open>setLoading(true)\<close>, \<^verbatim>\<open>setProgress(null)\<close>, and the run's
  variables \<open>counts\<close> and \<open>processedFiles\<close> fresh.
\<close>

definition startRun :: "AppState \<Rightarrow> RunState" where
  "startRun app =
     AppState.extend (app\<lparr>loading := True, progress := None\<rparr>)
       (RunState.fields \<lparr>WIDE = 0, A3 = 0, A4 = 0\<rparr> [] [])"

text \<open>
  The \<^verbatim>\<open>catch\<close> and \<^verbatim>\<open>finally\<close> blocks of \<^verbatim>\<open>analysePDFs\<close>. The string names what was
  thrown; it ends up on the console and in the alert.
\<close>

definition abortRun :: "string \<Rightarrow> RunState \<Rightarrow> RunOutcome \<times> RunState" where
  "abortRun e st =
     (Aborted e, st\<lparr>loading := False, progress := None,
                    log := log st @ [EvConsoleError e, EvAlert e]\<rparr>)"

definition analysePDFs ::
  "(string \<Rightarrow> string) \<Rightarrow> nat \<Rightarrow> PickerOutcome \<Rightarrow> PickerOutcome \<Rightarrow> AppState
   \<Rightarrow> (RunOutcome \<times> RunState) option" where
  "analysePDFs ul B picker picker2 app =
     (let st = startRun app
      in case picker of
           PickerRejected \<Rightarrow> Some (abortRun ''showDirectoryPicker'' st)
         | Picked entries \<Rightarrow>
             let (pathAccessible, evs) =
                   (if useDocsPath then checkPathExists picker2 else (True, []));
                 st1 = st\<lparr>log := log st @ evs\<rparr>
             in if \<not> pathAccessible then
                  Some (abortRun ''Selected path is not accessible'' st1)
                else
                  let pdfFiles = filter (\<lambda>handle. kind handle = KFile
                                   \<and> endsWith (toLowerCase ul (FileSystemHandle.name handle))
                                        ''.pdf'')
                                   entries;
                      tb = ceilDiv (length pdfFiles) B
                  in case batchLoop B pdfFiles tb 0 st1 of
                       None \<Rightarrow> None
                     | Some (Thrown e, st') \<Rightarrow> Some (abortRun e st')
                     | Some (Returned u, st') \<Rightarrow>
                         Some (Completed,
                               st'\<lparr>currentPage := 1, loading := False, progress := None\<rparr>))"

section \<open>The table: filter, sort, pages\<close>

definition filesPerPage :: nat where
  "filesPerPage = 10"

definition matchesQuery :: "(string \<Rightarrow> string) \<Rightarrow> string \<Rightarrow> FileInfo \<Rightarrow> bool" where
  "matchesQuery ul searchQ file =
     (let query = toLowerCase ul searchQ
      in includes_str (toLowerCase ul (FileInfo.name file)) query
         \<or> includes_str (toLowerCase ul (type_label (type file))) query
         \<or> includes_str (toString (pages file)) query
         \<or> includes_str (toLowerCase ul (createdAt file)) query)"

definition filteredFiles :: "(string \<Rightarrow> string) \<Rightarrow> 'a AppState_scheme \<Rightarrow> FileInfo list" where
  "filteredFiles ul app = filter (matchesQuery ul (searchQuery app)) (fileList app)"

text \<open>
  The comparison function handed to \<^verbatim>\<open>sort\<close>. \<open>lc\<close> is \<^verbatim>\<open>localeCompare\<close>, the collation of
  the browser's locale.
\<close>

definition compareFiles ::
  "(string \<Rightarrow> string \<Rightarrow> int) \<Rightarrow> SortField \<Rightarrow> SortDirection \<Rightarrow> FileInfo \<Rightarrow> FileInfo \<Rightarrow> int" where
  "compareFiles lc field dir a b =
     (let direction = (if dir = Asc then 1 else - 1)
      in case field of
           SF_name \<Rightarrow> lc (FileInfo.name a) (FileInfo.name b) * direction
         | SF_type \<Rightarrow> lc (type_label (type a)) (type_label (type b)) * direction
         | SF_pages \<Rightarrow> (int (pages a) - int (pages b)) * direction
         | SF_createdAt \<Rightarrow> lc (createdAt a) (createdAt b) * direction)"

text \<open>
  \<^verbatim>\<open>Array.prototype.sort\<close> with a comparison function: the result is ordered by the
  function and stable. For a consistent comparison function these two properties fix the
  result, which is then the one of the insertion sort below.
\<close>

fun insertBy :: "('a \<Rightarrow> 'a \<Rightarrow> int) \<Rightarrow> 'a \<Rightarrow> 'a list \<Rightarrow> 'a list" where
  "insertBy c x [] = [x]"
| "insertBy c x (y # ys) = (if c x y \<le> 0 then x # y # ys else y # insertBy c x ys)"

definition arraySort :: "('a \<Rightarrow> 'a \<Rightarrow> int) \<Rightarrow> 'a list \<Rightarrow> 'a list" where
  "arraySort c xs = foldr (insertBy c) xs []"

definition sortedFiles ::
  "(string \<Rightarrow> string \<Rightarrow> int) \<Rightarrow> (string \<Rightarrow> string) \<Rightarrow> 'a AppState_scheme \<Rightarrow> FileInfo list" where
  "sortedFiles lc ul app =
     arraySort (compareFiles lc (sortField app) (sortDirection app)) (filteredFiles ul app)"

definition totalPages ::
  "(string \<Rightarrow> string \<Rightarrow> int) \<Rightarrow> (string \<Rightarrow> string) \<Rightarrow> 'a AppState_scheme \<Rightarrow> int" where
  "totalPages lc ul app = int (ceilDiv (length (sortedFiles lc ul app)) filesPerPage)"

definition startIndex :: "'a AppState_scheme \<Rightarrow> int" where
  "startIndex app = (currentPage app - 1) * int filesPerPage"

definition visibleFiles ::
  "(string \<Rightarrow> string \<Rightarrow> int) \<Rightarrow> (string \<Rightarrow> string) \<Rightarrow> 'a AppState_scheme \<Rightarrow> FileInfo list" where
  "visibleFiles lc ul app =
     slice (sortedFiles lc ul app) (startIndex app) (startIndex app + int filesPerPage)"

text \<open>The handlers of the table: column header, search box, Previous and Next.\<close>

definition handleSort :: "SortField \<Rightarrow> AppState \<Rightarrow> AppState" where
  "handleSort field app =
     (if sortField app = field
      then app\<lparr>sortDirection := (if sortDirection app = Asc then Desc else Asc)\<rparr>
      else app\<lparr>sortField := field, sortDirection := Asc\<rparr>)"

definition setSearchQuery :: "string \<Rightarrow> AppState \<Rightarrow> AppState" where
  "setSearchQuery q app = app\<lparr>searchQuery := q\<rparr>"

definition previousPage :: "AppState \<Rightarrow> AppState" where
  "previousPage app = app\<lparr>currentPage := max 1 (currentPage app - 1)\<rparr>"

definition nextPage ::
  "(string \<Rightarrow> string \<Rightarrow> int) \<Rightarrow> (string \<Rightarrow> string) \<Rightarrow> AppState \<Rightarrow> AppState" where
  "nextPage lc ul app = app\<lparr>currentPage := min (totalPages lc ul app) (currentPage app + 1)\<rparr>"

section \<open>The export\<close>

record Workbook =
  pageCounter :: "(string \<times> nat) list"
  completedFiles :: "(string \<times> string \<times> nat \<times> string) list"

definition downloadExcel :: "'a AppState_scheme \<Rightarrow> Workbook" where
  "downloadExcel app =
     \<lparr>pageCounter = [(''WIDE'', WIDE (pageCounts app)), (''A3'', A3 (pageCounts app)),
                     (''A4'', A4 (pageCounts app))],
      completedFiles = map (\<lambda>file. (FileInfo.name file, type_label (type file), pages file,
                                     createdAt file)) (fileList app)\<rparr>"

text \<open>
  An ordinal comparison of strings, character by character: one collation that
  \<^verbatim>\<open>localeCompare\<close> may be, used for the examples.
\<close>

fun ordinalCompare :: "string \<Rightarrow> string \<Rightarrow> int" where
  "ordinalCompare [] [] = 0"
| "ordinalCompare [] (d # ds) = - 1"
| "ordinalCompare (c # cs) [] = 1"
| "ordinalCompare (c # cs) (d # ds) =
     (if (of_char c :: nat) < of_char d then - 1
      else if (of_char d :: nat) < of_char c then 1
      else ordinalCompare cs ds)"

section \<open>Notions of the specification\<close>


text \<open>
  A query is a case-insensitive substring of a field: some contiguous part of the field
  and the query are equal once lower-cased.
\<close>

definition ciSubstring :: "(string \<Rightarrow> string) \<Rightarrow> string \<Rightarrow> string \<Rightarrow> bool" where
  "ciSubstring ul q field = (\<exists>w. sublist w field \<and> toLowerCase ul w = toLowerCase ul q)"

text \<open>The lower-cased query is a substring of the lower-cased field.\<close>

definition foldedSubstring :: "(string \<Rightarrow> string) \<Rightarrow> string \<Rightarrow> string \<Rightarrow> bool" where
  "foldedSubstring ul q field = includes_str (toLowerCase ul field) (toLowerCase ul q)"

text \<open>The tally of a category, and the pages of the records of a category.\<close>

fun tally :: "FileType \<Rightarrow> PageCounts \<Rightarrow> nat" where
  "tally T_WIDE c = WIDE c"
| "tally T_A3 c = A3 c"
| "tally T_A4 c = A4 c"

definition pagesOf :: "FileType \<Rightarrow> FileInfo list \<Rightarrow> nat" where
  "pagesOf t files = sum_list (map pages (filter (\<lambda>f. type f = t) files))"

definition talliesMatch :: "PageCounts \<Rightarrow> FileInfo list \<Rightarrow> bool" where
  "talliesMatch c files =
     (tally T_WIDE c = pagesOf T_WIDE files \<and> tally T_A3 c = pagesOf T_A3 files
      \<and> tally T_A4 c = pagesOf T_A4 files)"

text \<open>
  \<^verbatim>\<open>destroy()\<close> on the document of an entry does not reject (or the entry never gets as far
  as a document).
\<close>

definition destroysCleanly :: "FileSystemHandle \<Rightarrow> bool" where
  "destroysCleanly fh =
     (case getFile fh of
        GetFileError \<Rightarrow> True
      | GotFile file \<Rightarrow>
          (case arrayBuffer file of
             ReadError \<Rightarrow> True
           | Bytes ParseError \<Rightarrow> True
           | Bytes (Document n d) \<Rightarrow> d = Destroyed))"

text \<open>Both pairs of a run agree: the run's own variables and the published copies.\<close>

definition talliesAgree :: "RunState \<Rightarrow> bool" where
  "talliesAgree st =
     (talliesMatch (counts st) (processedFiles st) \<and> talliesMatch (pageCounts st) (fileList st))"

text \<open>Consecutive groups of \<open>B\<close> files, the last one possibly smaller.\<close>

function groupsOf :: "nat \<Rightarrow> 'a list \<Rightarrow> 'a list list" where
  "groupsOf B xs = (if xs = [] \<or> B = 0 then [] else take B xs # groupsOf B (drop B xs))"
  by pat_completeness auto
termination
  by (relation "measure (\<lambda>(B, xs). length xs)") auto

declare groupsOf.simps [simp del]

text \<open>Processing given groups one after the other, numbered from \<open>cb\<close>.\<close>

fun runGroups ::
  "nat \<Rightarrow> nat \<Rightarrow> nat \<Rightarrow> FileSystemHandle list list \<Rightarrow> RunState \<Rightarrow> unit Completion \<times> RunState" where
  "runGroups B tb cb [] st = (Returned (), st)"
| "runGroups B tb cb (g # gs) st =
     (case processPDFBatch B g cb tb st of
        (Thrown e, st') \<Rightarrow> (Thrown e, st')
      | (Returned u, st') \<Rightarrow> runGroups B tb (cb + 1) gs st')"

text \<open>Processing all files one after another, with no batching.\<close>

definition unbatched :: "FileSystemHandle list \<Rightarrow> RunState \<Rightarrow> unit Completion \<times> RunState" where
  "unbatched files st = batchFiles files st"

text \<open>
  A comparison function is consistent on a set: the signs of \<open>c a b\<close> and \<open>c b a\<close> are
  opposite, and being at most equal is transitive.
\<close>

definition consistentOn :: "('a \<Rightarrow> 'a \<Rightarrow> int) \<Rightarrow> 'a set \<Rightarrow> bool" where
  "consistentOn c S =
     ((\<forall>a\<in>S. \<forall>b\<in>S. (c a b < 0) = (0 < c b a))
      \<and> (\<forall>a\<in>S. \<forall>b\<in>S. \<forall>d\<in>S. c a b \<le> 0 \<and> c b d \<le> 0 \<longrightarrow> c a d \<le> 0))"

text \<open>No two entries at different positions of a list compare as equal.\<close>

definition distinctKeys :: "('a \<Rightarrow> 'a \<Rightarrow> int) \<Rightarrow> 'a list \<Rightarrow> bool" where
  "distinctKeys c xs = sorted_wrt (\<lambda>a b. c a b \<noteq> 0 \<and> c b a \<noteq> 0) xs"

section \<open>Example inputs\<close>

definition pdfEntry :: "string \<Rightarrow> nat \<Rightarrow> FileSystemHandle" where
  "pdfEntry nm n =
     \<lparr>kind = KFile, name = nm,
      getFile = GotFile \<lparr>lastModifiedGB = ''02/11/2026'',
                        arrayBuffer = Bytes (Document n Destroyed)\<rparr>\<rparr>"

text \<open>A PDF of \<open>n\<close> pages on which \<^verbatim>\<open>destroy()\<close> rejects.\<close>

definition undestroyedEntry :: "string \<Rightarrow> nat \<Rightarrow> FileSystemHandle" where
  "undestroyedEntry nm n =
     \<lparr>kind = KFile, name = nm,
      getFile = GotFile \<lparr>lastModifiedGB = ''02/11/2026'',
                        arrayBuffer = Bytes (Document n DestroyError)\<rparr>\<rparr>"

definition exampleDir :: "FileSystemHandle list" where
  "exampleDir =
     [pdfEntry ''A-WIDE.pdf'' 3, pdfEntry ''B-A3.PDF'' 5, pdfEntry ''C-unknown.pdf'' 2,
      pdfEntry ''D-A4.pdf'' 1]"

text \<open>A file that was removed after the directory was listed: \<^verbatim>\<open>getFile()\<close> rejects.\<close>

definition removedEntry :: "string \<Rightarrow> FileSystemHandle" where
  "removedEntry nm = \<lparr>kind = KFile, name = nm, getFile = GetFileError\<rparr>"

definition record_of :: "string \<Rightarrow> nat \<Rightarrow> FileType \<Rightarrow> FileInfo" where
  "record_of nm n t =
     \<lparr>name = nm, pages = n, type = t, createdAt = ''02-11-2026'', fileHandle = pdfEntry nm n\<rparr>"

text \<open>A table of \<open>n\<close> records \<open>f0-A4.pdf\<close>, \<open>f1-A4.pdf\<close>, ... with \<open>0\<close>, \<open>1\<close>, ... pages.\<close>

definition manyFiles :: "nat \<Rightarrow> FileInfo list" where
  "manyFiles n = map (\<lambda>i. record_of (''f'' @ toString i @ ''-A4.pdf'') i T_A4) [0..<n]"

definition tableOf :: "FileInfo list \<Rightarrow> AppState" where
  "tableOf files = initialApp\<lparr>fileList := files\<rparr>"

text \<open>
  The Greek capital sigma, and a file name that begins with a capital alpha and a capital
  sigma, in UTF-8. Lower-cased, the sigma on its own is the small sigma (bytes CF 83); the
  sigma that ends the word of the file name is the final small sigma (bytes CF 82).
\<close>

definition capitalSigma :: string where
  "capitalSigma = [CHR 0xCE, CHR 0xA3]"

definition sigmaName :: string where
  "sigmaName = [CHR 0xCE, CHR 0x91, CHR 0xCE, CHR 0xA3] @ ''-A4.pdf''"

text \<open>
  The lower-casing used in the examples: on the two strings above it is what
  \<^verbatim>\<open>toLowerCase\<close> of ECMAScript gives, any other string it leaves as it is.
\<close>

definition sampleLower :: "string \<Rightarrow> string" where
  "sampleLower s =
     (if s = sigmaName then [CHR 0xCE, CHR 0xB1, CHR 0xCF, CHR 0x82] @ ''-a4.pdf''
      else if s = capitalSigma then [CHR 0xCF, CHR 0x83]
      else s)"

section \<open>Substrings\<close>

lemma includes_str_sublist: "includes_str s q \<longleftrightarrow> sublist q s"
  by (induction s) (auto simp: sublist_Cons_right)


section \<open>The classifier\<close>



section \<open>Tallies and records\<close>

lemma pagesOf_snoc:
  "pagesOf t (files @ [r]) = pagesOf t files + (if type r = t then pages r else 0)"
  by (simp add: pagesOf_def)

lemma tally_addPages:
  "tally t (addPages u n c) = tally t c + (if u = t then n else 0)"
  by (cases t; cases u) simp_all

lemma talliesMatch_step:
  "talliesMatch c files \<Longrightarrow> talliesMatch (addPages (type r) (pages r) c) (files @ [r])"
  by (simp add: talliesMatch_def pagesOf_snoc tally_addPages)

text \<open>
  Away from a rejected \<^verbatim>\<open>destroy()\<close> the counts change exactly when a record is returned,
  and the tallies stay the page sums of the records.
\<close>

lemma processPDFFile_cases:
  "destroysCleanly fh \<Longrightarrow>
   (\<exists>r. completion (processPDFFile fh c) = Returned (Some r)
        \<and> countsAfter (processPDFFile fh c) = addPages (type r) (pages r) c)
   \<or> ((\<forall>r. completion (processPDFFile fh c) \<noteq> Returned (Some r))
        \<and> countsAfter (processPDFFile fh c) = c)"
  by (auto simp: processPDFFile_def destroysCleanly_def Let_def
      split: GetFileOutcome.splits BufferOutcome.splits DocumentOutcome.splits option.splits)

lemma batchFiles_agree:
  "list_all destroysCleanly files \<Longrightarrow> talliesAgree st \<Longrightarrow>
   talliesAgree (snd (batchFiles files st))"
proof (induction files arbitrary: st)
  case Nil
  then show ?case by simp
next
  case (Cons fh rest)
  let ?step = "processPDFFile fh (counts st)"
  from Cons.prems(1) have clean: "destroysCleanly fh" and rest: "list_all destroysCleanly rest"
    by simp_all
  note ih = Cons.IH [OF rest]
  from processPDFFile_cases [OF clean, of "counts st"] show ?case
  proof (elim disjE exE conjE)
    fix r
    assume c: "completion ?step = Returned (Some r)"
      and k: "countsAfter ?step = addPages (type r) (pages r) (counts st)"
    let ?st2 = "st\<lparr>counts := countsAfter ?step, log := log st @ events ?step,
                   processedFiles := processedFiles st @ [r],
                   fileList := processedFiles st @ [r],
                   pageCounts := countsAfter ?step\<rparr>"
    from Cons.prems(2) have "talliesAgree ?st2"
      by (simp add: talliesAgree_def k talliesMatch_step)
    then have "talliesAgree (snd (batchFiles rest ?st2))"
      by (rule ih)
    then show ?thesis
      using c by (simp add: Let_def)
  next
    assume c: "\<forall>r. completion ?step \<noteq> Returned (Some r)"
      and k: "countsAfter ?step = counts st"
    let ?st1 = "st\<lparr>counts := countsAfter ?step, log := log st @ events ?step\<rparr>"
    from Cons.prems(2) have a: "talliesAgree ?st1"
      by (simp add: talliesAgree_def k)
    then have "talliesAgree (snd (batchFiles rest ?st1))"
      by (rule ih)
    with a c show ?thesis
      by (simp add: Let_def split: Completion.splits option.splits)
  qed
qed

lemma processPDFBatch_agree:
  "list_all destroysCleanly files \<Longrightarrow> talliesAgree st \<Longrightarrow>
   talliesAgree (snd (processPDFBatch B files cb tb st))"
  using batchFiles_agree [of files st]
  by (auto simp: processPDFBatch_def talliesAgree_def split: prod.splits Completion.splits)

lemma runGroups_agree:
  "list_all (list_all destroysCleanly) gs \<Longrightarrow> talliesAgree st \<Longrightarrow>
   talliesAgree (snd (runGroups B tb cb gs st))"
proof (induction gs arbitrary: st cb)
  case Nil
  then show ?case by simp
next
  case (Cons g gs)
  from Cons.prems(1) have g: "list_all destroysCleanly g"
    and gs: "list_all (list_all destroysCleanly) gs"
    by simp_all
  from g Cons.prems(2) have "talliesAgree (snd (processPDFBatch B g cb tb st))"
    by (rule processPDFBatch_agree)
  then show ?case
    using Cons.IH [OF gs] by (auto split: prod.splits Completion.splits)
qed

section \<open>Batches\<close>

lemma BATCH_SIZE_positive: "0 < BATCH_SIZE env"
  by (simp add: BATCH_SIZE_def split: option.splits)

lemma slice_batch: "slice xs (int i) (int i + int B) = take B (drop i xs)"
proof (cases "i \<le> length xs")
  case True
  then show ?thesis
    by (cases "i + B \<le> length xs") (auto simp: slice_def Let_def min_def nat_diff_distrib)
next
  case False
  then show ?thesis
    by (auto simp: slice_def Let_def min_def)
qed

lemma groupsOf_Nil [simp]: "groupsOf B [] = []"
  by (simp add: groupsOf.simps)

lemma groupsOf_step:
  "0 < B \<Longrightarrow> xs \<noteq> [] \<Longrightarrow> groupsOf B xs = take B xs # groupsOf B (drop B xs)"
  by (subst groupsOf.simps) simp

lemma concat_groupsOf: "0 < B \<Longrightarrow> concat (groupsOf B xs) = xs"
proof (induction B xs rule: groupsOf.induct)
  case (1 B xs)
  then show ?case
    by (cases "xs = []") (simp_all add: groupsOf_step)
qed

lemma small_div: "0 < n \<Longrightarrow> n < B \<Longrightarrow> (n + B - 1) div B = (1::nat)"
  by (rule div_nat_eqI) auto

lemma big_div: "0 < n \<Longrightarrow> (n + B - 1) div B = Suc ((n - 1) div (B::nat))" if "0 < B"
proof -
  assume "0 < n"
  then have "n + B - 1 = (n - 1) + B" by simp
  then have "(n + B - 1) div B = ((n - 1) + B) div B" by (rule arg_cong)
  also have "\<dots> = Suc ((n - 1) div B)" using that by simp
  finally show ?thesis .
qed

lemma ceil_nat: 
  assumes "0 < d"
  shows "\<lceil>real n / real d\<rceil> = int ((n + d - 1) div d)"
proof (cases "n = 0")
  case True
  then show ?thesis using assms by simp
next
  case False
  define k where "k = (n - 1) div d"
  have k: "(n + d - 1) div d = Suc k"
    unfolding k_def using assms False by (intro big_div) simp_all
  have lo: "k * d < n"
  proof -
    have "k * d \<le> n - 1" by (simp add: k_def)
    with False show ?thesis by simp
  qed
  have hi: "n \<le> Suc k * d"
  proof -
    have "n - 1 < d + ((n - 1) div d) * d"
      using assms by (rule dividend_less_div_times)
    then have "n - 1 < Suc k * d"
      by (simp add: k_def)
    then show ?thesis by simp
  qed
  have "real k * real d < real n"
    using lo unfolding of_nat_mult [symmetric] of_nat_less_iff .
  then have a: "real k < real n / real d"
    using assms by (simp add: pos_less_divide_eq)
  have "real n \<le> real (Suc k) * real d"
    using hi unfolding of_nat_mult [symmetric] of_nat_le_iff .
  then have b: "real n / real d \<le> real (Suc k)"
    using assms by (simp add: pos_divide_le_eq)
  have "\<lceil>real n / real d\<rceil> = int (Suc k)"
    using a b by (intro ceiling_unique) simp_all
  with k show ?thesis by simp
qed

lemma ceilDiv_div: "0 < d \<Longrightarrow> ceilDiv n d = (n + d - 1) div d"
  by (simp add: ceilDiv_def ceil_nat)

lemma length_groupsOf: "0 < B \<Longrightarrow> length (groupsOf B xs) = (length xs + B - 1) div B"
proof (induction B xs rule: groupsOf.induct)
  case (1 B xs)
  show ?case
  proof (cases "xs = []")
    case True
    with 1 show ?thesis by simp
  next
    case False
    then have pos: "0 < length xs" by simp
    from 1 False have ih: "length (groupsOf B (drop B xs)) = (length xs - B + B - 1) div B"
      by simp
    show ?thesis
    proof (cases "B \<le> length xs")
      case True
      then have "length xs - B + B - 1 = length xs - 1" by simp
      with ih have "length (groupsOf B xs) = Suc ((length xs - 1) div B)"
        using False \<open>0 < B\<close> by (simp add: groupsOf_step)
      also have "\<dots> = (length xs + B - 1) div B"
        using big_div [OF \<open>0 < B\<close> pos] by simp
      finally show ?thesis .
    next
      case small: False
      then have "drop B xs = []" by simp
      then have "length (groupsOf B xs) = 1"
        using False \<open>0 < B\<close> by (simp add: groupsOf_step)
      also have "\<dots> = (length xs + B - 1) div B"
        using small_div [OF pos, of B] small by simp
      finally show ?thesis .
    qed
  qed
qed

lemma groupsOf_sizes:
  "0 < B \<Longrightarrow> g \<in> set (groupsOf B xs) \<Longrightarrow> 0 < length g \<and> length g \<le> B"
proof (induction B xs rule: groupsOf.induct)
  case (1 B xs)
  then show ?case
    by (cases "xs = []") (auto simp: groupsOf_step)
qed

lemma groupsOf_full:
  "0 < B \<Longrightarrow> g \<in> set (butlast (groupsOf B xs)) \<Longrightarrow> length g = B"
proof (induction B xs rule: groupsOf.induct)
  case (1 B xs)
  show ?case
  proof (cases "xs = []")
    case True
    with 1 show ?thesis by simp
  next
    case False
    show ?thesis
    proof (cases "groupsOf B (drop B xs) = []")
      case True
      with 1 False show ?thesis by (simp add: groupsOf_step)
    next
      case ne: False
      then have "drop B xs \<noteq> []" by auto
      then have "B \<le> length xs" by simp
      with 1 False ne show ?thesis
        by (auto simp: groupsOf_step)
    qed
  qed
qed


subsection \<open>The loop over the batches\<close>

lemma batchLoop_groups:
  "0 < B \<Longrightarrow>
   batchLoop B files tb i st = Some (runGroups B tb (i div B + 1) (groupsOf B (drop i files)) st)"
proof (induction "length files - i" arbitrary: i st rule: less_induct)
  case less
  show ?case
  proof (cases "i < length files")
    case False
    then show ?thesis
      by (subst batchLoop.simps) simp
  next
    case True
    then have ne: "drop i files \<noteq> []" by simp
    have g: "groupsOf B (drop i files) = take B (drop i files) # groupsOf B (drop (i + B) files)"
      using groupsOf_step [OF less.prems ne] by (simp add: add.commute)
    have n: "(i + B) div B + 1 = i div B + 1 + 1"
      using less.prems by simp
    have ih: "batchLoop B files tb (i + B) s =
        Some (runGroups B tb (i div B + 1 + 1) (groupsOf B (drop (i + B) files)) s)" for s
      using less.hyps [of "i + B" s] less.prems True n by simp
    show ?thesis
      by (subst batchLoop.simps)
        (simp add: True slice_batch g ih split: prod.splits Completion.splits)
  qed
qed

lemma batchFiles_progress:
  "batchFiles fs (st\<lparr>progress := p\<rparr>) =
     (fst (batchFiles fs st), (snd (batchFiles fs st))\<lparr>progress := p\<rparr>)"
proof (induction fs arbitrary: st)
  case Nil
  show ?case by simp
next
  case (Cons fh rest)
  let ?step = "processPDFFile fh (counts st)"
  let ?s1 = "st\<lparr>counts := countsAfter ?step, log := log st @ events ?step\<rparr>"
  have sw1: "st\<lparr>progress := p, counts := C, log := L\<rparr> = st\<lparr>counts := C, log := L, progress := p\<rparr>"
    for C L by simp
  have sw2: "st\<lparr>progress := p, counts := C, log := L, processedFiles := P, fileList := F,
                 pageCounts := Q\<rparr>
             = st\<lparr>counts := C, log := L, processedFiles := P, fileList := F, pageCounts := Q,
                  progress := p\<rparr>"
    for C L P F Q by simp
  show ?case
  proof (cases "completion ?step")
    case (Thrown e)
    then show ?thesis by (simp add: Let_def)
  next
    case (Returned ro)
    show ?thesis
    proof (cases ro)
      case None
      with Returned Cons.IH [of ?s1] show ?thesis
        by (simp add: Let_def sw1)
    next
      case (Some r)
      let ?s2 = "?s1\<lparr>processedFiles := processedFiles ?s1 @ [r],
                     fileList := processedFiles ?s1 @ [r], pageCounts := counts ?s1\<rparr>"
      from Some Returned Cons.IH [of ?s2] show ?thesis
        by (simp add: Let_def sw2)
    qed
  qed
qed

lemma batchFiles_append:
  "batchFiles (xs @ ys) st =
     (case batchFiles xs st of
        (Thrown e, st') \<Rightarrow> (Thrown e, st')
      | (Returned u, st') \<Rightarrow> batchFiles ys st')"
proof (induction xs arbitrary: st)
  case Nil
  show ?case by simp
next
  case (Cons fh rest)
  show ?case
    by (simp add: Let_def Cons.IH split: Completion.splits option.splits)
qed

lemma runGroups_unbatched:
  "fst (runGroups B tb cb gs st) = fst (batchFiles (concat gs) st)
   \<and> (snd (runGroups B tb cb gs st))\<lparr>progress := None\<rparr>
       = (snd (batchFiles (concat gs) st))\<lparr>progress := None\<rparr>"
proof (induction gs arbitrary: st cb)
  case Nil
  show ?case by simp
next
  case (Cons g gs)
  obtain c st1 where b: "batchFiles g st = (c, st1)"
    by (cases "batchFiles g st")
  show ?case
  proof (cases c)
    case (Thrown e)
    with b show ?thesis
      by (simp add: processPDFBatch_def batchFiles_append)
  next
    case (Returned u)
    let ?p = "Some \<lparr>processed = length (processedFiles st1), total = tb * B,
                     currentBatch = cb, totalBatches = tb\<rparr>"
    from Cons.IH [of "cb + 1" "st1\<lparr>progress := ?p\<rparr>"] b Returned show ?thesis
      by (simp add: processPDFBatch_def batchFiles_append batchFiles_progress)
  qed
qed

section \<open>Runs\<close>

lemma abortRun_agree: "talliesAgree st \<Longrightarrow> talliesAgree (snd (abortRun e st))"
  by (simp add: abortRun_def talliesAgree_def)

lemma startRun_agree:
  "talliesMatch (pageCounts app) (fileList app) \<Longrightarrow> talliesAgree (startRun app)"
  by (simp add: startRun_def talliesAgree_def talliesMatch_def pagesOf_def
      AppState.defs RunState.defs)

lemma groupsOf_all:
  assumes "0 < B" and "list_all P xs"
  shows "list_all (list_all P) (groupsOf B xs)"
proof -
  have "set g \<subseteq> set xs" if "g \<in> set (groupsOf B xs)" for g
  proof -
    from that have "set g \<subseteq> set (concat (groupsOf B xs))" by auto
    then show ?thesis using concat_groupsOf [OF assms(1), of xs] by simp
  qed
  with assms(2) show ?thesis
    by (auto simp: list_all_iff)
qed

text \<open>The run after the picker gave a directory, with the loop over the batches unrolled.\<close>

lemma analysePDFs_Picked:
  assumes "0 < B"
  shows "analysePDFs ul B (Picked entries) picker2 app =
    (let pa = (if useDocsPath then checkPathExists picker2 else (True, []));
         st1 = (startRun app)\<lparr>log := log (startRun app) @ snd pa\<rparr>;
         pdfFiles = filter (\<lambda>handle. kind handle = KFile
                      \<and> endsWith (toLowerCase ul (FileSystemHandle.name handle)) ''.pdf'') entries
     in if \<not> fst pa then Some (abortRun ''Selected path is not accessible'' st1)
        else (case runGroups B (ceilDiv (length pdfFiles) B) 1 (groupsOf B pdfFiles) st1 of
                (Thrown e, st') \<Rightarrow> Some (abortRun e st')
              | (Returned u, st') \<Rightarrow>
                  Some (Completed, st'\<lparr>currentPage := 1, loading := False, progress := None\<rparr>)))"
proof -
  have l: "batchLoop B files tb 0 st = Some (runGroups B tb 1 (groupsOf B files) st)"
    for files tb st
    using batchLoop_groups [OF assms, of files tb 0 st] by simp
  show ?thesis
    by (simp add: analysePDFs_def Let_def split_def l)
qed

lemma analysePDFs_returns:
  assumes "0 < B"
  shows "\<exists>out st. analysePDFs ul B picker picker2 app = Some (out, st)"
proof (cases picker)
  case PickerRejected
  then show ?thesis
    by (simp add: analysePDFs_def Let_def abortRun_def)
next
  case (Picked entries)
  have "\<exists>out st. analysePDFs ul B (Picked entries) picker2 app = Some (out, st)"
    unfolding analysePDFs_Picked [OF assms]
    by (auto simp: Let_def abortRun_def split: prod.splits Completion.splits)
  with Picked show ?thesis by simp
qed

lemma analysePDFs_agree:
  assumes "talliesMatch (pageCounts app) (fileList app)" and "0 < B"
    and clean: "list_all destroysCleanly entries"
  shows "\<exists>out st. analysePDFs ul B (Picked entries) picker2 app = Some (out, st)
           \<and> talliesAgree st"
proof -
  let ?pa = "if useDocsPath then checkPathExists picker2 else (True, [])"
  let ?st1 = "(startRun app)\<lparr>log := log (startRun app) @ snd ?pa\<rparr>"
  let ?files = "filter (\<lambda>handle. kind handle = KFile
                   \<and> endsWith (toLowerCase ul (FileSystemHandle.name handle)) ''.pdf'') entries"
  let ?r = "runGroups B (ceilDiv (length ?files) B) 1 (groupsOf B ?files) ?st1"
  have "talliesAgree (startRun app)"
    using assms(1) by (rule startRun_agree)
  then have s: "talliesAgree ?st1"
    by (simp add: talliesAgree_def)
  have "list_all destroysCleanly ?files"
    using clean by (simp add: list_all_iff)
  then have "list_all (list_all destroysCleanly) (groupsOf B ?files)"
    by (rule groupsOf_all [OF assms(2)])
  then have a: "talliesAgree (snd ?r)"
    using s by (rule runGroups_agree)
  obtain c st' where r: "?r = (c, st')" by (cases ?r)
  with a have a': "talliesAgree st'" by simp
  show ?thesis
  proof (cases "fst ?pa")
    case False
    with abortRun_agree [OF s, of "''Selected path is not accessible''"] show ?thesis
      unfolding analysePDFs_Picked [OF assms(2)]
      by (cases "abortRun ''Selected path is not accessible'' ?st1") (simp add: Let_def)
  next
    case True
    show ?thesis
    proof (cases c)
      case (Thrown e)
      with True r abortRun_agree [OF a', of e] show ?thesis
        unfolding analysePDFs_Picked [OF assms(2)]
        by (cases "abortRun e st'") (simp add: Let_def)
    next
      case (Returned u)
      have "talliesAgree (st'\<lparr>currentPage := 1, loading := False, progress := None\<rparr>)"
        using a' by (simp add: talliesAgree_def)
      with Returned True r show ?thesis
        unfolding analysePDFs_Picked [OF assms(2)]
        by (simp add: Let_def)
    qed
  qed
qed

lemma analysePDFs_two:
  "analysePDFs ul 2 (Picked entries) picker2 app =
    (let pa = (if useDocsPath then checkPathExists picker2 else (True, []));
         st1 = (startRun app)\<lparr>log := log (startRun app) @ snd pa\<rparr>;
         pdfFiles = filter (\<lambda>handle. kind handle = KFile
                      \<and> endsWith (toLowerCase ul (FileSystemHandle.name handle)) ''.pdf'') entries
     in if \<not> fst pa then Some (abortRun ''Selected path is not accessible'' st1)
        else (case runGroups 2 (ceilDiv (length pdfFiles) 2) 1 (groupsOf 2 pdfFiles) st1 of
                (Thrown e, st') \<Rightarrow> Some (abortRun e st')
              | (Returned u, st') \<Rightarrow>
                  Some (Completed, st'\<lparr>currentPage := 1, loading := False, progress := None\<rparr>)))"
  by (rule analysePDFs_Picked) simp

text \<open>
  Claim C4. A directory with \<open>A-WIDE.pdf\<close> (3 pages), on whose document \<^verbatim>\<open>destroy()\<close>
  rejects, and \<open>D-A4.pdf\<close> (1 page), with batch size 2. The WIDE tally is incremented
  before \<^verbatim>\<open>destroy()\<close> is awaited and the rejection is caught as a skipped file, so the run
  completes with the published tallies WIDE 3, A3 0, A4 1 and the single record
  \<open>D-A4.pdf\<close>: the WIDE tally is 3 and the pages of the WIDE records sum to 0.
\<close>

theorem destroy_rejection_breaks_tally:
  "map_option (\<lambda>(out, st). (out, pageCounts st, map FileInfo.name (fileList st),
        tally T_WIDE (pageCounts st), pagesOf T_WIDE (fileList st),
        talliesMatch (pageCounts st) (fileList st)))
     (analysePDFs ul 2 (Picked [undestroyedEntry ''A-WIDE.pdf'' 3, pdfEntry ''D-A4.pdf'' 1])
        (Picked []) initialApp)
   = Some (Completed, \<lparr>WIDE = 3, A3 = 0, A4 = 1\<rparr>, [''D-A4.pdf''], 3, 0, False)"
  unfolding analysePDFs_two by code_simp

text \<open>
  Claim C5. For a positive batch size \<open>B\<close> the loop of \<^verbatim>\<open>analysePDFs\<close> ends; it processes
  the files in \<open>\<lceil>N / B\<rceil>\<close> consecutive groups, all of size \<open>B\<close> except possibly the last,
  which together are the file list in order; and the outcome, the result list and the whole
  state apart from the progress cell are those of processing all files one after another
  with no batching.
\<close>

theorem batching_keeps_sequence:
  assumes "0 < B"
  shows "length (groupsOf B files) = ceilDiv (length files) B
    \<and> concat (groupsOf B files) = files
    \<and> (\<forall>g \<in> set (groupsOf B files). 0 < length g \<and> length g \<le> B)
    \<and> (\<forall>g \<in> set (butlast (groupsOf B files)). length g = B)
    \<and> batchLoop B files tb 0 st = Some (runGroups B tb 1 (groupsOf B files) st)
    \<and> fst (runGroups B tb 1 (groupsOf B files) st) = fst (unbatched files st)
    \<and> processedFiles (snd (runGroups B tb 1 (groupsOf B files) st))
        = processedFiles (snd (unbatched files st))
    \<and> fileList (snd (runGroups B tb 1 (groupsOf B files) st))
        = fileList (snd (unbatched files st))
    \<and> (snd (runGroups B tb 1 (groupsOf B files) st))\<lparr>progress := None\<rparr>
        = (snd (unbatched files st))\<lparr>progress := None\<rparr>"
proof -
  let ?r = "runGroups B tb 1 (groupsOf B files) st"
  have l: "batchLoop B files tb 0 st = Some ?r"
    using batchLoop_groups [OF assms, of files tb 0 st] by simp
  have c: "concat (groupsOf B files) = files"
    using assms by (rule concat_groupsOf)
  have u: "fst ?r = fst (unbatched files st)"
    and e: "(snd ?r)\<lparr>progress := None\<rparr> = (snd (unbatched files st))\<lparr>progress := None\<rparr>"
    using runGroups_unbatched [of B tb 1 "groupsOf B files" st] c
    by (simp_all add: unbatched_def)
  from e have "processedFiles ((snd ?r)\<lparr>progress := None\<rparr>)
      = processedFiles ((snd (unbatched files st))\<lparr>progress := None\<rparr>)"
    and "fileList ((snd ?r)\<lparr>progress := None\<rparr>)
      = fileList ((snd (unbatched files st))\<lparr>progress := None\<rparr>)"
    by simp_all
  then have pf: "processedFiles (snd ?r) = processedFiles (snd (unbatched files st))"
    and fl: "fileList (snd ?r) = fileList (snd (unbatched files st))"
    by simp_all
  have n: "length (groupsOf B files) = ceilDiv (length files) B"
    using assms by (simp add: length_groupsOf ceilDiv_div)
  show ?thesis
    using n c l u pf fl e groupsOf_sizes [OF assms] groupsOf_full [OF assms]
    by blast
qed

theorem batching_keeps_sequence_witness:
  "(0::nat) < 2
   \<and> map (map FileSystemHandle.name) (groupsOf 2 (exampleDir @ [pdfEntry ''E-A4.pdf'' 4]))
       = [[''A-WIDE.pdf'', ''B-A3.PDF''], [''C-unknown.pdf'', ''D-A4.pdf''], [''E-A4.pdf'']]
   \<and> ceilDiv (length (exampleDir @ [pdfEntry ''E-A4.pdf'' 4])) 2 = 3
   \<and> (\<exists>r. batchLoop 2 (exampleDir @ [pdfEntry ''E-A4.pdf'' 4]) 3 0 (startRun initialApp) = Some r
         \<and> fst r = Returned ()
         \<and> processedFiles (snd r)
             = processedFiles (snd (unbatched (exampleDir @ [pdfEntry ''E-A4.pdf'' 4])
                 (startRun initialApp)))
         \<and> map FileInfo.name (processedFiles (snd r))
             = [''A-WIDE.pdf'', ''D-A4.pdf'', ''E-A4.pdf''])"
proof -
  let ?files = "exampleDir @ [pdfEntry ''E-A4.pdf'' 4]"
  have p: "(0::nat) < 2" by simp
  have g: "map (map FileSystemHandle.name) (groupsOf 2 ?files)
       = [[''A-WIDE.pdf'', ''B-A3.PDF''], [''C-unknown.pdf'', ''D-A4.pdf''], [''E-A4.pdf'']]"
    by code_simp
  have c: "ceilDiv (length ?files) 2 = 3"
    by code_simp
  have u: "fst (unbatched ?files (startRun initialApp)) = Returned ()"
    by code_simp
  have v: "map FileInfo.name (processedFiles (snd (unbatched ?files (startRun initialApp))))
      = [''A-WIDE.pdf'', ''D-A4.pdf'', ''E-A4.pdf'']"
    by code_simp
  from batching_keeps_sequence [OF p, of ?files 3 "startRun initialApp"] p g c u v
  show ?thesis
    by simp
qed

text \<open>
  Claim C1. The directory with \<open>A-WIDE.pdf\<close> (3 pages), \<open>B-A3.PDF\<close> (5 pages),
  \<open>C-unknown.pdf\<close> (2 pages) and \<open>D-A4.pdf\<close> (1 page), with batch size 2: the run
  completes with the tallies WIDE 3, A3 0, A4 1 and the two records \<open>A-WIDE.pdf\<close> and
  \<open>D-A4.pdf\<close>; the export has a category sheet of 3 rows and a file sheet of 2 rows.
  \<open>B-A3.PDF\<close> is listed by the enumeration, which lower-cases the name, and then refused
  by the test of \<^verbatim>\<open>processPDFFile\<close>, which does not.
\<close>

theorem example_run_drops_upper_case_extension:
  "map_option (\<lambda>(out, st). (out, pageCounts st, map FileInfo.name (fileList st),
        length (pageCounter (downloadExcel st)), length (completedFiles (downloadExcel st))))
     (analysePDFs ul 2 (Picked exampleDir) (Picked exampleDir) initialApp)
   = Some (Completed, \<lparr>WIDE = 3, A3 = 0, A4 = 1\<rparr>, [''A-WIDE.pdf'', ''D-A4.pdf''], 3, 2)"
  unfolding analysePDFs_two by code_simp

text \<open>
  Claim C3. A directory whose first file was removed after the listing: \<^verbatim>\<open>getFile()\<close> is
  called outside the \<^verbatim>\<open>try\<close> block of \<^verbatim>\<open>processPDFFile\<close>, its rejection leaves the batch
  and the run, and the file after it is never opened.
\<close>

theorem getFile_rejection_aborts_run:
  "map_option (\<lambda>(out, st). (out, map FileInfo.name (fileList st), pageCounts st, log st))
     (analysePDFs ul 2 (Picked [removedEntry ''A-WIDE.pdf'', pdfEntry ''D-A4.pdf'' 1])
        (Picked []) initialApp)
   = Some (Aborted ''getFile'', [], \<lparr>WIDE = 0, A3 = 0, A4 = 0\<rparr>,
           [EvGetFile ''A-WIDE.pdf'', EvConsoleError ''getFile'', EvAlert ''getFile''])"
  unfolding analysePDFs_two by code_simp

section \<open>Sorting\<close>

lemma set_insertBy: "set (insertBy c x ys) = insert x (set ys)"
  by (induction ys) auto

lemma mset_insertBy: "mset (insertBy c x ys) = add_mset x (mset ys)"
  by (induction ys) auto

lemma arraySort_Cons: "arraySort c (x # xs) = insertBy c x (arraySort c xs)"
  by (simp add: arraySort_def)

lemma arraySort_Nil: "arraySort c [] = []"
  by (simp add: arraySort_def)

lemma mset_arraySort: "mset (arraySort c xs) = mset xs"
  by (induction xs) (simp_all add: arraySort_Cons arraySort_Nil mset_insertBy)

lemma set_arraySort: "set (arraySort c xs) = set xs"
  using mset_arraySort [of c xs] by (metis set_mset_mset)

lemma length_arraySort: "length (arraySort c xs) = length xs"
  using mset_arraySort [of c xs] by (metis size_mset)

lemma consistentOn_subset: "consistentOn c S \<Longrightarrow> T \<subseteq> S \<Longrightarrow> consistentOn c T"
  unfolding consistentOn_def by blast

lemma consistentOn_sign:
  "consistentOn c S \<Longrightarrow> a \<in> S \<Longrightarrow> b \<in> S \<Longrightarrow> (c a b < 0) = (0 < c b a)"
  unfolding consistentOn_def by blast

lemma consistentOn_trans:
  "consistentOn c S \<Longrightarrow> a \<in> S \<Longrightarrow> b \<in> S \<Longrightarrow> d \<in> S \<Longrightarrow> c a b \<le> 0 \<Longrightarrow> c b d \<le> 0
   \<Longrightarrow> c a d \<le> 0"
  unfolding consistentOn_def by blast

lemma consistentOn_zero:
  assumes "consistentOn c S" "a \<in> S" "b \<in> S"
  shows "(c a b = 0) = (c b a = 0)"
  using consistentOn_sign [OF assms] consistentOn_sign [OF assms(1) assms(3) assms(2)]
  by linarith

lemma consistentOn_flip:
  assumes "consistentOn c S" "a \<in> S" "b \<in> S"
  shows "(0 \<le> c a b) = (c b a \<le> 0)"
  using consistentOn_sign [OF assms] consistentOn_sign [OF assms(1) assms(3) assms(2)]
  by linarith

lemma sorted_insertBy:
  assumes "consistentOn c (insert x (set ys))"
    and "sorted_wrt (\<lambda>a b. c a b \<le> 0) ys"
  shows "sorted_wrt (\<lambda>a b. c a b \<le> 0) (insertBy c x ys)"
  using assms
proof (induction ys)
  case Nil
  show ?case by simp
next
  case (Cons y ys)
  have sub: "consistentOn c (insert x (set ys))"
    using Cons.prems(1) by (rule consistentOn_subset) auto
  show ?case
  proof (cases "c x y \<le> 0")
    case True
    have "c x z \<le> 0" if "z \<in> set ys" for z
    proof -
      from Cons.prems(2) that have "c y z \<le> 0" by simp
      with True show ?thesis
        using consistentOn_trans [OF Cons.prems(1), of x y z] that by simp
    qed
    with True Cons.prems(2) show ?thesis by simp
  next
    case False
    then have "c y x \<le> 0"
      using consistentOn_sign [OF Cons.prems(1), of y x] by simp
    moreover have "sorted_wrt (\<lambda>a b. c a b \<le> 0) (insertBy c x ys)"
      using Cons.IH [OF sub] Cons.prems(2) by simp
    ultimately show ?thesis
      using False Cons.prems(2) by (simp add: set_insertBy)
  qed
qed

lemma sorted_arraySort:
  "consistentOn c (set xs) \<Longrightarrow> sorted_wrt (\<lambda>a b. c a b \<le> 0) (arraySort c xs)"
proof (induction xs)
  case Nil
  show ?case by (simp add: arraySort_Nil)
next
  case (Cons x xs)
  have "consistentOn c (set xs)"
    using Cons.prems by (rule consistentOn_subset) auto
  then have "sorted_wrt (\<lambda>a b. c a b \<le> 0) (arraySort c xs)"
    by (rule Cons.IH)
  moreover have "consistentOn c (insert x (set (arraySort c xs)))"
    using Cons.prems by (simp add: set_arraySort)
  ultimately show ?case
    unfolding arraySort_Cons by (rule sorted_insertBy [rotated])
qed

lemma stable_insertBy:
  assumes "consistentOn c (insert k (insert x (set ys)))"
  shows "filter (\<lambda>y. c k y = 0) (insertBy c x ys)
         = (if c k x = 0 then x # filter (\<lambda>y. c k y = 0) ys else filter (\<lambda>y. c k y = 0) ys)"
  using assms
proof (induction ys)
  case Nil
  show ?case by simp
next
  case (Cons y ys)
  have sub: "consistentOn c (insert k (insert x (set ys)))"
    using Cons.prems by (rule consistentOn_subset) auto
  note ih = Cons.IH [OF sub]
  show ?case
  proof (cases "c x y \<le> 0")
    case True
    then show ?thesis by simp
  next
    case False
    have "c k y \<noteq> 0" if kx: "c k x = 0"
    proof
      assume ky: "c k y = 0"
      from kx have "c x k = 0"
        using consistentOn_zero [OF Cons.prems, of k x] by simp
      with ky have "c x y \<le> 0"
        using consistentOn_trans [OF Cons.prems, of x k y] by simp
      with False show False by simp
    qed
    with False ih show ?thesis by simp
  qed
qed

lemma stable_arraySort:
  "consistentOn c (insert k (set xs)) \<Longrightarrow>
   filter (\<lambda>y. c k y = 0) (arraySort c xs) = filter (\<lambda>y. c k y = 0) xs"
proof (induction xs)
  case Nil
  show ?case by (simp add: arraySort_Nil)
next
  case (Cons x xs)
  have "consistentOn c (insert k (set xs))"
    using Cons.prems by (rule consistentOn_subset) auto
  then have ih: "filter (\<lambda>y. c k y = 0) (arraySort c xs) = filter (\<lambda>y. c k y = 0) xs"
    by (rule Cons.IH)
  have "consistentOn c (insert k (insert x (set (arraySort c xs))))"
    using Cons.prems by (simp add: set_arraySort)
  from stable_insertBy [OF this] ih show ?case
    by (simp add: arraySort_Cons)
qed

lemma sorted_unique:
  assumes "sorted_wrt (\<lambda>a b. c a b \<le> 0) xs" and "sorted_wrt (\<lambda>a b. c a b \<le> 0) ys"
    and "mset xs = mset ys"
    and "\<And>a b. a \<in> set xs \<Longrightarrow> b \<in> set xs \<Longrightarrow> c a b \<le> 0 \<Longrightarrow> c b a \<le> 0 \<Longrightarrow> a = b"
  shows "xs = ys"
  using assms
proof (induction xs arbitrary: ys)
  case Nil
  then show ?case by simp
next
  case (Cons x xs)
  from Cons.prems(3) obtain y ys' where ys: "ys = y # ys'"
    by (cases ys) auto
  have sets: "set (x # xs) = set (y # ys')"
    using Cons.prems(3) ys by (metis set_mset_mset)
  have xy: "x = y"
  proof (rule ccontr)
    assume ne: "x \<noteq> y"
    with sets have "x \<in> set ys'" and "y \<in> set xs" by auto
    then have "c y x \<le> 0" and "c x y \<le> 0"
      using Cons.prems(1,2) ys by auto
    moreover have "x \<in> set (x # xs)" and "y \<in> set (x # xs)"
      using \<open>y \<in> set xs\<close> by auto
    ultimately have "x = y" by (intro Cons.prems(4))
    with ne show False by simp
  qed
  with Cons.prems(3) ys have m: "mset xs = mset ys'" by simp
  have "xs = ys'"
    using Cons.prems(1,2) ys m Cons.prems(4) by (intro Cons.IH) auto
  with xy ys show ?case by simp
qed

lemma distinctKeys_eq:
  assumes "distinctKeys c xs" and "a \<in> set xs" and "b \<in> set xs" and "c a b = 0"
  shows "a = b"
proof (rule ccontr)
  assume ne: "a \<noteq> b"
  from assms(2,3) obtain i j where i: "i < length xs" "xs ! i = a" and j: "j < length xs" "xs ! j = b"
    by (auto simp: in_set_conv_nth)
  with ne have "i \<noteq> j" by auto
  then consider "i < j" | "j < i" by linarith
  then show False
  proof cases
    case 1
    with assms(1) i j have "c a b \<noteq> 0"
      unfolding distinctKeys_def by (auto simp: sorted_wrt_iff_nth_less)
    with assms(4) show False by simp
  next
    case 2
    with assms(1) i j have "c a b \<noteq> 0"
      unfolding distinctKeys_def by (auto simp: sorted_wrt_iff_nth_less)
    with assms(4) show False by simp
  qed
qed

lemma consistentOn_negate:
  assumes "consistentOn c S"
  shows "consistentOn (\<lambda>a b. - c a b) S"
  unfolding consistentOn_def
proof (intro conjI ballI impI)
  fix a b assume "a \<in> S" "b \<in> S"
  then show "(- c a b < 0) = (0 < - c b a)"
    using consistentOn_sign [OF assms, of b a] by auto
next
  fix a b d assume m: "a \<in> S" "b \<in> S" "d \<in> S" and h: "- c a b \<le> 0 \<and> - c b d \<le> 0"
  then have "c b a \<le> 0" and "c d b \<le> 0"
    using consistentOn_flip [OF assms] by auto
  then have "c d a \<le> 0"
    using consistentOn_trans [OF assms, of d b a] m by simp
  then show "- c a d \<le> 0"
    using consistentOn_flip [OF assms, of a d] m by simp
qed

lemma arraySort_negate:
  assumes con: "consistentOn c (set xs)" and dk: "distinctKeys c xs"
  shows "arraySort (\<lambda>a b. - c a b) xs = rev (arraySort c xs)"
proof -
  let ?asc = "arraySort c xs" and ?desc = "arraySort (\<lambda>a b. - c a b) xs"
  have "sorted_wrt (\<lambda>a b. - c a b \<le> 0) ?desc"
    using consistentOn_negate [OF con] by (rule sorted_arraySort)
  then have "sorted_wrt (\<lambda>a b. c b a \<le> 0) ?desc"
  proof (rule sorted_wrt_mono_rel [rotated])
    fix a b assume "a \<in> set ?desc" "b \<in> set ?desc" "- c a b \<le> 0"
    then show "c b a \<le> 0"
      using consistentOn_flip [OF con, of a b] by (simp add: set_arraySort)
  qed
  then have r: "sorted_wrt (\<lambda>a b. c a b \<le> 0) (rev ?desc)"
    by (simp add: sorted_wrt_rev)
  have a: "sorted_wrt (\<lambda>a b. c a b \<le> 0) ?asc"
    using con by (rule sorted_arraySort)
  have m: "mset ?asc = mset (rev ?desc)"
    by (simp add: mset_arraySort)
  have "?asc = rev ?desc"
  proof (rule sorted_unique [OF a r m])
    fix a b assume ab: "a \<in> set ?asc" "b \<in> set ?asc" and le: "c a b \<le> 0" "c b a \<le> 0"
    then have "c a b = 0"
      using consistentOn_sign [OF con, of a b] by (simp add: set_arraySort)
    with dk ab show "a = b"
      by (intro distinctKeys_eq [of c xs]) (simp_all add: set_arraySort)
  qed
  then show ?thesis by simp
qed

lemma compareFiles_Desc:
  "compareFiles lc field Desc = (\<lambda>a b. - compareFiles lc field Asc a b)"
  by (intro ext) (simp add: compareFiles_def split: SortField.splits)

lemma filteredFiles_handleSort: "filteredFiles ul (handleSort field app) = filteredFiles ul app"
  by (simp add: filteredFiles_def handleSort_def)

lemma sortField_handleSort: "sortField (handleSort field app) = field"
  by (simp add: handleSort_def)

lemma sortDirection_handleSort:
  "sortDirection (handleSort field app) =
     (if sortField app = field then (if sortDirection app = Asc then Desc else Asc) else Asc)"
  by (simp add: handleSort_def)

lemma consistentOn_direction:
  assumes "consistentOn (compareFiles lc field Asc) S"
  shows "consistentOn (compareFiles lc field dir) S"
proof (cases dir)
  case Asc
  with assms show ?thesis by simp
next
  case Desc
  with consistentOn_negate [OF assms] show ?thesis by (simp add: compareFiles_Desc)
qed

lemma compareFiles_zero:
  "(compareFiles lc field dir a b = 0) = (compareFiles lc field Asc a b = 0)"
  by (cases dir) (simp_all add: compareFiles_Desc)

lemma sortedFiles_props:
  assumes con: "consistentOn (compareFiles lc field Asc) (set (filteredFiles ul app))"
    and f: "sortField s = field" and ff: "filteredFiles ul s = filteredFiles ul app"
  shows "sorted_wrt (\<lambda>a b. compareFiles lc (sortField s) (sortDirection s) a b \<le> 0)
           (sortedFiles lc ul s)"
    and "mset (sortedFiles lc ul s) = mset (filteredFiles ul app)"
    and "k \<in> set (filteredFiles ul app) \<Longrightarrow>
         filter (\<lambda>y. compareFiles lc field Asc k y = 0) (sortedFiles lc ul s)
         = filter (\<lambda>y. compareFiles lc field Asc k y = 0) (filteredFiles ul app)"
proof -
  let ?c = "compareFiles lc field (sortDirection s)"
  have c: "consistentOn ?c (set (filteredFiles ul app))"
    using con by (rule consistentOn_direction)
  show "sorted_wrt (\<lambda>a b. compareFiles lc (sortField s) (sortDirection s) a b \<le> 0)
           (sortedFiles lc ul s)"
    using sorted_arraySort [OF c] by (simp add: sortedFiles_def f ff)
  show "mset (sortedFiles lc ul s) = mset (filteredFiles ul app)"
    by (simp add: sortedFiles_def ff mset_arraySort)
  assume k: "k \<in> set (filteredFiles ul app)"
  then have "consistentOn ?c (insert k (set (filteredFiles ul app)))"
    using c by (simp add: insert_absorb)
  from stable_arraySort [OF this]
  show "filter (\<lambda>y. compareFiles lc field Asc k y = 0) (sortedFiles lc ul s)
         = filter (\<lambda>y. compareFiles lc field Asc k y = 0) (filteredFiles ul app)"
    by (simp add: sortedFiles_def f ff compareFiles_zero [of lc field "sortDirection s"])
qed

lemma sortedFiles_twice:
  assumes con: "consistentOn (compareFiles lc field Asc) (set (filteredFiles ul app))"
    and dk: "distinctKeys (compareFiles lc field Asc) (filteredFiles ul app)"
  shows "sortedFiles lc ul (handleSort field (handleSort field app))
         = rev (sortedFiles lc ul (handleSort field app))"
proof -
  let ?F = "filteredFiles ul app"
  have d: "arraySort (compareFiles lc field Desc) ?F = rev (arraySort (compareFiles lc field Asc) ?F)"
    using arraySort_negate [OF con dk] by (simp add: compareFiles_Desc)
  then have a: "arraySort (compareFiles lc field Asc) ?F = rev (arraySort (compareFiles lc field Desc) ?F)"
    by simp
  show ?thesis
  proof (cases "sortDirection (handleSort field app)")
    case Asc
    then show ?thesis
      using d by (simp add: sortedFiles_def filteredFiles_handleSort sortField_handleSort
          sortDirection_handleSort)
  next
    case Desc
    then show ?thesis
      using a by (simp add: sortedFiles_def filteredFiles_handleSort sortField_handleSort
          sortDirection_handleSort)
  qed
qed

text \<open>
  Claim C6, amended. A click on a column header selects that column, ascending, or flips
  the direction when the column is already selected. For a comparison that is consistent
  on the filtered records, the table after the first and after the second click on the
  same header is ordered by the comparison of its state, is a rearrangement of the
  filtered records and keeps records of equal key in their order in the list (the sort is
  stable). When no two records have equal keys, the order after the second click is the
  reverse of the order after the first.
\<close>

theorem sort_twice_reverses_distinct_keys:
  assumes "consistentOn (compareFiles lc field Asc) (set (filteredFiles ul app))"
  shows "sortField (handleSort field app) = field
    \<and> sortDirection (handleSort field app)
        = (if sortField app = field then (if sortDirection app = Asc then Desc else Asc) else Asc)
    \<and> sortDirection (handleSort field (handleSort field app))
        \<noteq> sortDirection (handleSort field app)
    \<and> (\<forall>s \<in> {handleSort field app, handleSort field (handleSort field app)}.
          sorted_wrt (\<lambda>a b. compareFiles lc (sortField s) (sortDirection s) a b \<le> 0)
            (sortedFiles lc ul s)
          \<and> mset (sortedFiles lc ul s) = mset (filteredFiles ul app)
          \<and> (\<forall>k \<in> set (filteredFiles ul app).
                filter (\<lambda>y. compareFiles lc field Asc k y = 0) (sortedFiles lc ul s)
                = filter (\<lambda>y. compareFiles lc field Asc k y = 0) (filteredFiles ul app)))
    \<and> (distinctKeys (compareFiles lc field Asc) (filteredFiles ul app) \<longrightarrow>
          sortedFiles lc ul (handleSort field (handleSort field app))
          = rev (sortedFiles lc ul (handleSort field app)))"
proof -
  let ?s1 = "handleSort field app" and ?s2 = "handleSort field (handleSort field app)"
  have p1: "sortField ?s1 = field" "filteredFiles ul ?s1 = filteredFiles ul app"
    by (simp_all add: sortField_handleSort filteredFiles_handleSort)
  have p2: "sortField ?s2 = field" "filteredFiles ul ?s2 = filteredFiles ul app"
    by (simp_all add: sortField_handleSort filteredFiles_handleSort)
  have flip: "sortDirection ?s2 \<noteq> sortDirection ?s1"
    by (simp add: sortDirection_handleSort sortField_handleSort)
  note a1 = sortedFiles_props [OF assms p1]
  note a2 = sortedFiles_props [OF assms p2]
  show ?thesis
    using a1 a2 flip sortedFiles_twice [OF assms]
    by (simp add: sortField_handleSort sortDirection_handleSort)
qed

text \<open>
  Two records with the same number of pages: both clicks on the pages column give the
  order of the list, so the second order is not the reverse of the first.
\<close>

theorem sort_twice_counterexample:
  "sortedFiles ordinalCompare sampleLower (handleSort SF_pages (handleSort SF_pages
      (tableOf [record_of ''a-A3.pdf'' 2 T_A3, record_of ''b-A3.pdf'' 2 T_A3])))
   \<noteq> rev (sortedFiles ordinalCompare sampleLower (handleSort SF_pages
      (tableOf [record_of ''a-A3.pdf'' 2 T_A3, record_of ''b-A3.pdf'' 2 T_A3])))"
  by code_simp

theorem sort_twice_witness:
  "consistentOn (compareFiles ordinalCompare SF_pages Asc)
     (set (filteredFiles sampleLower (tableOf [record_of ''b-A3.pdf'' 5 T_A3, record_of ''a-WIDE.pdf'' 3 T_WIDE,
        record_of ''c-A4.pdf'' 7 T_A4])))
   \<and> distinctKeys (compareFiles ordinalCompare SF_pages Asc)
     (filteredFiles sampleLower (tableOf [record_of ''b-A3.pdf'' 5 T_A3, record_of ''a-WIDE.pdf'' 3 T_WIDE,
        record_of ''c-A4.pdf'' 7 T_A4]))
   \<and> sortedFiles ordinalCompare sampleLower (handleSort SF_pages (handleSort SF_pages
       (tableOf [record_of ''b-A3.pdf'' 5 T_A3, record_of ''a-WIDE.pdf'' 3 T_WIDE,
        record_of ''c-A4.pdf'' 7 T_A4])))
     = rev (sortedFiles ordinalCompare sampleLower (handleSort SF_pages
       (tableOf [record_of ''b-A3.pdf'' 5 T_A3, record_of ''a-WIDE.pdf'' 3 T_WIDE,
        record_of ''c-A4.pdf'' 7 T_A4])))
   \<and> map pages (sortedFiles ordinalCompare sampleLower (handleSort SF_pages
       (tableOf [record_of ''b-A3.pdf'' 5 T_A3, record_of ''a-WIDE.pdf'' 3 T_WIDE,
        record_of ''c-A4.pdf'' 7 T_A4]))) = [3, 5, 7]"
proof -
  let ?app = "tableOf [record_of ''b-A3.pdf'' 5 T_A3, record_of ''a-WIDE.pdf'' 3 T_WIDE,
        record_of ''c-A4.pdf'' 7 T_A4]"
  have h: "consistentOn (compareFiles ordinalCompare SF_pages Asc) (set (filteredFiles sampleLower ?app))"
    by code_simp
  have d: "distinctKeys (compareFiles ordinalCompare SF_pages Asc) (filteredFiles sampleLower ?app)"
    by code_simp
  have v: "map pages (sortedFiles ordinalCompare sampleLower (handleSort SF_pages ?app)) = [3, 5, 7]"
    by code_simp
  from sort_twice_reverses_distinct_keys [OF h] d h v show ?thesis
    by blast
qed

section \<open>Filtering\<close>

lemma isASCII_sublist: "sublist w s \<Longrightarrow> isASCII s \<Longrightarrow> isASCII w"
  by (auto simp: isASCII_def list_all_iff dest: set_mono_sublist)

lemma toLowerCase_ascii: "isASCII s \<Longrightarrow> toLowerCase ul s = map lower_char s"
  by (simp add: toLowerCase_def)

lemma toLowerCase_Nil: "toLowerCase ul [] = []"
  by (simp add: toLowerCase_def isASCII_def)

lemma lower_digit: "d < 10 \<Longrightarrow> lower_char (digit_char d) = digit_char d"
  by (simp add: lower_char_def digit_char_def Let_def)

lemma ascii_digit: "d < 10 \<Longrightarrow> (of_char (digit_char d) :: nat) < 128"
  by (simp add: digit_char_def)

lemma isASCII_toString: "isASCII (toString n)"
proof (induction n rule: toString.induct)
  case (1 n)
  show ?case
  proof (cases "n < 10")
    case True
    then show ?thesis
      by (subst toString.simps) (simp add: isASCII_def ascii_digit)
  next
    case False
    with 1 have "isASCII (toString (n div 10))" by simp
    with False show ?thesis
      by (subst toString.simps) (simp add: isASCII_def ascii_digit)
  qed
qed

lemma lower_toString: "map lower_char (toString n) = toString n"
proof (induction n rule: toString.induct)
  case (1 n)
  show ?case
  proof (cases "n < 10")
    case True
    then show ?thesis
      by (subst (1 2) toString.simps) (simp add: lower_digit)
  next
    case False
    with 1 have "map lower_char (toString (n div 10)) = toString (n div 10)" by simp
    with False show ?thesis
      by (subst (1 2) toString.simps) (simp add: lower_digit)
  qed
qed

lemma toLowerCase_toString: "toLowerCase ul (toString n) = toString n"
  by (simp add: toLowerCase_ascii isASCII_toString lower_toString)

lemma includes_str_empty: "includes_str s []"
  by (simp add: includes_str_sublist)

lemma matchesQuery_folded:
  "matchesQuery ul q file \<longleftrightarrow>
     foldedSubstring ul q (FileInfo.name file) \<or> foldedSubstring ul q (type_label (type file))
     \<or> foldedSubstring ul q (toString (pages file)) \<or> foldedSubstring ul q (createdAt file)"
  by (simp add: matchesQuery_def Let_def foldedSubstring_def toLowerCase_toString)

text \<open>On ASCII text the folded test is the case-insensitive substring test.\<close>

lemma foldedSubstring_ascii:
  assumes q: "isASCII q" and f: "isASCII field"
  shows "foldedSubstring ul q field \<longleftrightarrow> ciSubstring ul q field"
proof
  assume "foldedSubstring ul q field"
  then have "sublist (map lower_char q) (map lower_char field)"
    using q f by (simp add: foldedSubstring_def includes_str_sublist toLowerCase_ascii)
  then obtain w where w: "sublist w field" and e: "map lower_char q = map lower_char w"
    using sublist_map_rightE by blast
  from w f have "isASCII w" by (rule isASCII_sublist)
  with e q have "toLowerCase ul w = toLowerCase ul q"
    by (simp add: toLowerCase_ascii)
  with w show "ciSubstring ul q field"
    unfolding ciSubstring_def by blast
next
  assume "ciSubstring ul q field"
  then obtain w where w: "sublist w field" and e: "toLowerCase ul w = toLowerCase ul q"
    by (auto simp: ciSubstring_def)
  from w f have "isASCII w" by (rule isASCII_sublist)
  with e q have "map lower_char w = map lower_char q"
    by (simp add: toLowerCase_ascii)
  moreover from w have "sublist (map lower_char w) (map lower_char field)"
    by (rule map_mono_sublist)
  ultimately show "foldedSubstring ul q field"
    using q f by (simp add: foldedSubstring_def includes_str_sublist toLowerCase_ascii)
qed

text \<open>
  Claim C7, amended. The empty query keeps the whole list. A record is kept by the filter
  exactly when the lower-cased query is a substring of its lower-cased name, of its
  lower-cased category label, of the decimal text of its page count or of its lower-cased
  date; a query for which this holds for no field of any record gives the empty list. For
  a query and a field of ASCII characters this is the test whether the query is a
  case-insensitive substring of the field.
\<close>

theorem filter_matches_folded_fields:
  "filteredFiles ul app =
     filter (\<lambda>file. foldedSubstring ul (searchQuery app) (FileInfo.name file)
                \<or> foldedSubstring ul (searchQuery app) (type_label (type file))
                \<or> foldedSubstring ul (searchQuery app) (toString (pages file))
                \<or> foldedSubstring ul (searchQuery app) (createdAt file)) (fileList app)
   \<and> (searchQuery app = [] \<longrightarrow> filteredFiles ul app = fileList app)
   \<and> ((\<forall>file \<in> set (fileList app).
          \<not> foldedSubstring ul (searchQuery app) (FileInfo.name file)
          \<and> \<not> foldedSubstring ul (searchQuery app) (type_label (type file))
          \<and> \<not> foldedSubstring ul (searchQuery app) (toString (pages file))
          \<and> \<not> foldedSubstring ul (searchQuery app) (createdAt file)) \<longrightarrow>
        filteredFiles ul app = [])
   \<and> (\<forall>field. isASCII (searchQuery app) \<and> isASCII field \<longrightarrow>
          foldedSubstring ul (searchQuery app) field = ciSubstring ul (searchQuery app) field)"
proof -
  have e: "filteredFiles ul app = fileList app" if "searchQuery app = []"
    using that
    by (simp add: filteredFiles_def matchesQuery_def toLowerCase_Nil includes_str_empty)
  have a: "foldedSubstring ul (searchQuery app) field = ciSubstring ul (searchQuery app) field"
    if "isASCII (searchQuery app) \<and> isASCII field" for field
    using that foldedSubstring_ascii [of "searchQuery app" field ul] by simp
  have f: "filteredFiles ul app =
     filter (\<lambda>file. foldedSubstring ul (searchQuery app) (FileInfo.name file)
                \<or> foldedSubstring ul (searchQuery app) (type_label (type file))
                \<or> foldedSubstring ul (searchQuery app) (toString (pages file))
                \<or> foldedSubstring ul (searchQuery app) (createdAt file)) (fileList app)"
    by (simp add: filteredFiles_def matchesQuery_folded [abs_def])
  have n: "filteredFiles ul app = []"
    if "\<forall>file \<in> set (fileList app).
          \<not> foldedSubstring ul (searchQuery app) (FileInfo.name file)
          \<and> \<not> foldedSubstring ul (searchQuery app) (type_label (type file))
          \<and> \<not> foldedSubstring ul (searchQuery app) (toString (pages file))
          \<and> \<not> foldedSubstring ul (searchQuery app) (createdAt file)"
    using that by (simp add: filteredFiles_def matchesQuery_folded filter_empty_conv)
  from f e n a show ?thesis
    by blast
qed

text \<open>
  The query \<open>capitalSigma\<close> occurs as it is in the name \<open>sigmaName\<close>, so it is a
  case-insensitive substring of the name; the filter does not keep the record, because the
  lower-cased name holds the final small sigma and the lower-cased query the small sigma.
\<close>

theorem filter_misses_final_sigma:
  "sublist capitalSigma (FileInfo.name (record_of sigmaName 1 T_A4))
   \<and> ciSubstring sampleLower capitalSigma (FileInfo.name (record_of sigmaName 1 T_A4))
   \<and> filteredFiles sampleLower
        (setSearchQuery capitalSigma (tableOf [record_of sigmaName 1 T_A4])) = []"
proof -
  have s: "sublist capitalSigma (FileInfo.name (record_of sigmaName 1 T_A4))"
    unfolding includes_str_sublist [symmetric] by code_simp
  then have c: "ciSubstring sampleLower capitalSigma (FileInfo.name (record_of sigmaName 1 T_A4))"
    unfolding ciSubstring_def by blast
  have f: "filteredFiles sampleLower
        (setSearchQuery capitalSigma (tableOf [record_of sigmaName 1 T_A4])) = []"
    by code_simp
  from s c f show ?thesis by blast
qed

theorem filter_matches_folded_fields_witness:
  "searchQuery (tableOf (manyFiles 3)) = []
   \<and> filteredFiles sampleLower (tableOf (manyFiles 3)) = fileList (tableOf (manyFiles 3))
   \<and> fileList (tableOf (manyFiles 3)) \<noteq> []
   \<and> list_all (\<lambda>file. \<not> foldedSubstring sampleLower ''zip'' (FileInfo.name file)
          \<and> \<not> foldedSubstring sampleLower ''zip'' (type_label (type file))
          \<and> \<not> foldedSubstring sampleLower ''zip'' (toString (pages file))
          \<and> \<not> foldedSubstring sampleLower ''zip'' (createdAt file))
        (fileList (setSearchQuery ''zip'' (tableOf (manyFiles 3))))
   \<and> filteredFiles sampleLower (setSearchQuery ''zip'' (tableOf (manyFiles 3))) = []
   \<and> isASCII (searchQuery (setSearchQuery ''F2-a'' (tableOf (manyFiles 3))))
   \<and> isASCII ''f2-A4.pdf''
   \<and> foldedSubstring sampleLower ''F2-a'' ''f2-A4.pdf''
   \<and> ciSubstring sampleLower ''F2-a'' ''f2-A4.pdf''
   \<and> map FileInfo.name
        (filteredFiles sampleLower (setSearchQuery ''F2-a'' (tableOf (manyFiles 3))))
       = [''f2-A4.pdf'']"
proof -
  let ?t = "tableOf (manyFiles 3)"
  have q: "searchQuery ?t = []"
    by code_simp
  have ne: "fileList ?t \<noteq> []"
    by code_simp
  have z: "searchQuery (setSearchQuery ''zip'' ?t) = ''zip''"
    by code_simp
  have n: "list_all (\<lambda>file. \<not> foldedSubstring sampleLower ''zip'' (FileInfo.name file)
          \<and> \<not> foldedSubstring sampleLower ''zip'' (type_label (type file))
          \<and> \<not> foldedSubstring sampleLower ''zip'' (toString (pages file))
          \<and> \<not> foldedSubstring sampleLower ''zip'' (createdAt file))
        (fileList (setSearchQuery ''zip'' ?t))"
    by code_simp
  have y: "searchQuery (setSearchQuery ''F2-a'' ?t) = ''F2-a''"
    by code_simp
  have a1: "isASCII (searchQuery (setSearchQuery ''F2-a'' ?t))"
    by code_simp
  have a2: "isASCII ''f2-A4.pdf''"
    by code_simp
  have fo: "foldedSubstring sampleLower ''F2-a'' ''f2-A4.pdf''"
    by code_simp
  have m: "map FileInfo.name (filteredFiles sampleLower (setSearchQuery ''F2-a'' ?t))
       = [''f2-A4.pdf'']"
    by code_simp
  from filter_matches_folded_fields [of sampleLower ?t] q
  have f1: "filteredFiles sampleLower ?t = fileList ?t"
    by blast
  from filter_matches_folded_fields [of sampleLower "setSearchQuery ''zip'' ?t"] n
  have f2: "filteredFiles sampleLower (setSearchQuery ''zip'' ?t) = []"
    unfolding z list_all_iff by blast
  from filter_matches_folded_fields [of sampleLower "setSearchQuery ''F2-a'' ?t"] a1 a2
  have "foldedSubstring sampleLower ''F2-a'' ''f2-A4.pdf''
      = ciSubstring sampleLower ''F2-a'' ''f2-A4.pdf''"
    unfolding y by blast
  with fo have ci: "ciSubstring sampleLower ''F2-a'' ''f2-A4.pdf''"
    by simp
  from q f1 ne n f2 a1 a2 fo ci m show ?thesis
    by blast
qed

section \<open>Pages of the table\<close>

lemma filteredFiles_currentPage [simp]:
  "filteredFiles ul (app\<lparr>currentPage := p\<rparr>) = filteredFiles ul app"
  by (simp add: filteredFiles_def)

lemma sortedFiles_currentPage [simp]:
  "sortedFiles lc ul (app\<lparr>currentPage := p\<rparr>) = sortedFiles lc ul app"
  by (simp add: sortedFiles_def filteredFiles_def)

lemma totalPages_currentPage [simp]:
  "totalPages lc ul (app\<lparr>currentPage := p\<rparr>) = totalPages lc ul app"
  by (simp add: totalPages_def)

lemma length_sortedFiles: "length (sortedFiles lc ul app) = length (filteredFiles ul app)"
  by (simp add: sortedFiles_def length_arraySort)

lemma visibleFiles_page:
  "1 \<le> currentPage app \<Longrightarrow>
   visibleFiles lc ul app = take 10 (drop (nat ((currentPage app - 1) * 10)) (sortedFiles lc ul app))"
  using slice_batch [of "sortedFiles lc ul app" "nat ((currentPage app - 1) * 10)" 10]
  by (simp add: visibleFiles_def startIndex_def filesPerPage_def)

lemma totalPages_eq: "totalPages lc ul app = int ((length (sortedFiles lc ul app) + 9) div 10)"
  by (simp add: totalPages_def filesPerPage_def ceilDiv_div)

text \<open>
  Claim C8. The page size is 10. A filtered and sorted list of 25 records has 3 pages, of
  10, 10 and 5 records, which together are the list. From a current page between 1 and
  the number of pages, Previous and Next lead to a page in that range again; Previous on
  page 1 and Next on the last page change nothing.
\<close>

theorem pagination_sizes_and_clamp:
  "filesPerPage = 10
   \<and> (length (sortedFiles lc ul app) = 25 \<longrightarrow>
        totalPages lc ul app = 3
        \<and> length (visibleFiles lc ul (app\<lparr>currentPage := 1\<rparr>)) = 10
        \<and> length (visibleFiles lc ul (app\<lparr>currentPage := 2\<rparr>)) = 10
        \<and> length (visibleFiles lc ul (app\<lparr>currentPage := 3\<rparr>)) = 5
        \<and> visibleFiles lc ul (app\<lparr>currentPage := 1\<rparr>) @ visibleFiles lc ul (app\<lparr>currentPage := 2\<rparr>)
            @ visibleFiles lc ul (app\<lparr>currentPage := 3\<rparr>) = sortedFiles lc ul app)
   \<and> (1 \<le> currentPage app \<and> currentPage app \<le> totalPages lc ul app \<longrightarrow>
        1 \<le> currentPage (previousPage app)
        \<and> currentPage (previousPage app) \<le> totalPages lc ul (previousPage app)
        \<and> 1 \<le> currentPage (nextPage lc ul app)
        \<and> currentPage (nextPage lc ul app) \<le> totalPages lc ul (nextPage lc ul app)
        \<and> (currentPage app = 1 \<longrightarrow> previousPage app = app)
        \<and> (currentPage app = totalPages lc ul app \<longrightarrow> nextPage lc ul app = app))"
proof -
  have sizes: "totalPages lc ul app = 3
        \<and> length (visibleFiles lc ul (app\<lparr>currentPage := 1\<rparr>)) = 10
        \<and> length (visibleFiles lc ul (app\<lparr>currentPage := 2\<rparr>)) = 10
        \<and> length (visibleFiles lc ul (app\<lparr>currentPage := 3\<rparr>)) = 5
        \<and> visibleFiles lc ul (app\<lparr>currentPage := 1\<rparr>) @ visibleFiles lc ul (app\<lparr>currentPage := 2\<rparr>)
            @ visibleFiles lc ul (app\<lparr>currentPage := 3\<rparr>) = sortedFiles lc ul app"
    if l: "length (sortedFiles lc ul app) = 25"
  proof -
    let ?xs = "sortedFiles lc ul app"
    have t: "totalPages lc ul app = 3"
      using l by (simp add: totalPages_eq)
    have v1: "visibleFiles lc ul (app\<lparr>currentPage := 1\<rparr>) = take 10 ?xs"
      by (simp add: visibleFiles_page)
    have v2: "visibleFiles lc ul (app\<lparr>currentPage := 2\<rparr>) = take 10 (drop 10 ?xs)"
      by (simp add: visibleFiles_page)
    have v3: "visibleFiles lc ul (app\<lparr>currentPage := 3\<rparr>) = take 10 (drop 20 ?xs)"
      by (simp add: visibleFiles_page)
    have "take 10 (drop 20 ?xs) = drop 20 ?xs"
      using l by simp
    then have "take 10 ?xs @ take 10 (drop 10 ?xs) @ take 10 (drop 20 ?xs)
        = take 10 ?xs @ (take 10 (drop 10 ?xs) @ drop 10 (drop 10 ?xs))"
      by simp
    also have "\<dots> = ?xs"
      by (simp only: append_take_drop_id)
    finally have c: "take 10 ?xs @ take 10 (drop 10 ?xs) @ take 10 (drop 20 ?xs) = ?xs" .
    from t l c show ?thesis
      by (simp add: v1 v2 v3)
  qed
  have clamp: "1 \<le> currentPage (previousPage app)
        \<and> currentPage (previousPage app) \<le> totalPages lc ul (previousPage app)
        \<and> 1 \<le> currentPage (nextPage lc ul app)
        \<and> currentPage (nextPage lc ul app) \<le> totalPages lc ul (nextPage lc ul app)
        \<and> (currentPage app = 1 \<longrightarrow> previousPage app = app)
        \<and> (currentPage app = totalPages lc ul app \<longrightarrow> nextPage lc ul app = app)"
    if "1 \<le> currentPage app \<and> currentPage app \<le> totalPages lc ul app"
    using that by (auto simp: previousPage_def nextPage_def)
  from sizes clamp show ?thesis
    by (simp add: filesPerPage_def)
qed

theorem pagination_sizes_and_clamp_witness:
  "length (sortedFiles ordinalCompare sampleLower (tableOf (manyFiles 25))) = 25
   \<and> map length [visibleFiles ordinalCompare sampleLower ((tableOf (manyFiles 25))\<lparr>currentPage := 1\<rparr>),
                  visibleFiles ordinalCompare sampleLower ((tableOf (manyFiles 25))\<lparr>currentPage := 2\<rparr>),
                  visibleFiles ordinalCompare sampleLower ((tableOf (manyFiles 25))\<lparr>currentPage := 3\<rparr>)]
       = [10, 10, 5]
   \<and> currentPage (tableOf (manyFiles 25)) = 1
   \<and> totalPages ordinalCompare sampleLower (tableOf (manyFiles 25)) = 3
   \<and> previousPage (tableOf (manyFiles 25)) = tableOf (manyFiles 25)
   \<and> currentPage (nextPage ordinalCompare sampleLower (tableOf (manyFiles 25))) = 2
   \<and> nextPage ordinalCompare sampleLower ((tableOf (manyFiles 25))\<lparr>currentPage := 3\<rparr>)
       = (tableOf (manyFiles 25))\<lparr>currentPage := 3\<rparr>"
proof -
  let ?app = "tableOf (manyFiles 25)"
  have l: "length (sortedFiles ordinalCompare sampleLower ?app) = 25"
    by code_simp
  have p: "currentPage ?app = 1"
    by code_simp
  have p3: "currentPage (?app\<lparr>currentPage := 3\<rparr>) = 3"
    by simp
  note a = pagination_sizes_and_clamp [of ordinalCompare sampleLower ?app]
  note b = pagination_sizes_and_clamp [of ordinalCompare sampleLower "?app\<lparr>currentPage := 3\<rparr>"]
  from a l have s: "totalPages ordinalCompare sampleLower ?app = 3
        \<and> length (visibleFiles ordinalCompare sampleLower (?app\<lparr>currentPage := 1\<rparr>)) = 10
        \<and> length (visibleFiles ordinalCompare sampleLower (?app\<lparr>currentPage := 2\<rparr>)) = 10
        \<and> length (visibleFiles ordinalCompare sampleLower (?app\<lparr>currentPage := 3\<rparr>)) = 5"
    by blast
  with a p have v: "previousPage ?app = ?app"
    by simp
  have n: "currentPage (nextPage ordinalCompare sampleLower ?app) = 2"
    using s p by (simp add: nextPage_def)
  from b s p3 have w: "nextPage ordinalCompare sampleLower (?app\<lparr>currentPage := 3\<rparr>) = ?app\<lparr>currentPage := 3\<rparr>"
    by simp
  from l s p v n w show ?thesis
    by simp
qed

section \<open>Parsing and classifying\<close>

text \<open>
  Claim C9, amended. For a file whose name ends in \<open>.pdf\<close> and whose bytes can be read,
  \<^verbatim>\<open>processPDFFile\<close> gets the file, reads it and hands it to the PDF parser whatever its
  name is; the classification comes after the parse. A file with no marker in its name
  is parsed all the same, its document is destroyed, and it gives no record and no change
  of the counts.
\<close>

theorem parse_precedes_classification:
  assumes "kind fh = KFile" and "endsWith (FileSystemHandle.name fh) ''.pdf''"
    and "getFile fh = GotFile file" and "arrayBuffer file = Bytes d"
  shows "events (processPDFFile fh c)
       = [EvGetFile (FileSystemHandle.name fh), EvArrayBuffer (FileSystemHandle.name fh),
          EvGetDocument (FileSystemHandle.name fh)]
         @ (case d of
              ParseError \<Rightarrow> [EvConsoleError (toUpperCase (FileSystemHandle.name fh))]
            | Document n Destroyed \<Rightarrow> [EvDestroy (FileSystemHandle.name fh)]
            | Document n DestroyError \<Rightarrow>
                [EvDestroy (FileSystemHandle.name fh),
                 EvConsoleError (toUpperCase (FileSystemHandle.name fh))])
    \<and> (classify (toUpperCase (FileSystemHandle.name fh)) = None \<longrightarrow>
          completion (processPDFFile fh c) = Returned None
          \<and> countsAfter (processPDFFile fh c) = c)"
  using assms
  by (auto simp: processPDFFile_def Let_def
      split: DocumentOutcome.splits DestroyOutcome.splits option.splits)

text \<open>The parser is called on \<open>C-unknown.pdf\<close>, which the classifier does not place.\<close>

theorem classify_before_parse_counterexample:
  "classify (toUpperCase (FileSystemHandle.name (pdfEntry ''C-unknown.pdf'' 2))) = None
   \<and> EvGetDocument ''C-unknown.pdf''
       \<in> set (events (processPDFFile (pdfEntry ''C-unknown.pdf'' 2) \<lparr>WIDE = 0, A3 = 0, A4 = 0\<rparr>))"
  by code_simp

theorem parse_precedes_classification_witness:
  "kind (pdfEntry ''C-unknown.pdf'' 2) = KFile
   \<and> endsWith (FileSystemHandle.name (pdfEntry ''C-unknown.pdf'' 2)) ''.pdf''
   \<and> getFile (pdfEntry ''C-unknown.pdf'' 2)
       = GotFile \<lparr>lastModifiedGB = ''02/11/2026'', arrayBuffer = Bytes (Document 2 Destroyed)\<rparr>
   \<and> classify (toUpperCase (FileSystemHandle.name (pdfEntry ''C-unknown.pdf'' 2))) = None
   \<and> events (processPDFFile (pdfEntry ''C-unknown.pdf'' 2) \<lparr>WIDE = 0, A3 = 0, A4 = 0\<rparr>)
       = [EvGetFile ''C-unknown.pdf'', EvArrayBuffer ''C-unknown.pdf'',
          EvGetDocument ''C-unknown.pdf'', EvDestroy ''C-unknown.pdf'']
   \<and> completion (processPDFFile (pdfEntry ''C-unknown.pdf'' 2) \<lparr>WIDE = 0, A3 = 0, A4 = 0\<rparr>)
       = Returned None"
proof -
  let ?fh = "pdfEntry ''C-unknown.pdf'' 2"
  let ?file = "\<lparr>lastModifiedGB = ''02/11/2026'', arrayBuffer = Bytes (Document 2 Destroyed)\<rparr>"
  have k: "kind ?fh = KFile" by code_simp
  have e: "endsWith (FileSystemHandle.name ?fh) ''.pdf''" by code_simp
  have g: "getFile ?fh = GotFile ?file" by code_simp
  have b: "arrayBuffer ?file = Bytes (Document 2 Destroyed)" by simp
  have c: "classify (toUpperCase (FileSystemHandle.name ?fh)) = None" by code_simp
  have nm: "FileSystemHandle.name ?fh = ''C-unknown.pdf''" by (simp add: pdfEntry_def)
  from parse_precedes_classification [OF k e g b, of "\<lparr>WIDE = 0, A3 = 0, A4 = 0\<rparr>"] k e g c
  show ?thesis
    by (simp add: nm)
qed

section \<open>Searching\<close>

lemma slice_past_end:
  "0 \<le> start \<Longrightarrow> int (length xs) \<le> start \<Longrightarrow> slice xs start fin = []"
  by (simp add: slice_def Let_def)

text \<open>
  Claim C10. Setting the search query leaves the current page, the sort column, the sort
  direction and the file list as they were. With 11 records and the current page 2, which
  is the last page and shows one record, the query \<open>f10\<close> leaves one record in the filtered
  list, one page, and nothing in the visible slice: the current page is still 2.
\<close>

theorem search_keeps_page_and_sort:
  "currentPage (setSearchQuery q app) = currentPage app
   \<and> sortField (setSearchQuery q app) = sortField app
   \<and> sortDirection (setSearchQuery q app) = sortDirection app
   \<and> fileList (setSearchQuery q app) = fileList app
   \<and> fileList ((tableOf (manyFiles 11))\<lparr>currentPage := 2\<rparr>) \<noteq> []
   \<and> totalPages lc ul ((tableOf (manyFiles 11))\<lparr>currentPage := 2\<rparr>) = 2
   \<and> visibleFiles lc ul ((tableOf (manyFiles 11))\<lparr>currentPage := 2\<rparr>) \<noteq> []
   \<and> filteredFiles ul (setSearchQuery ''f10'' ((tableOf (manyFiles 11))\<lparr>currentPage := 2\<rparr>)) \<noteq> []
   \<and> visibleFiles lc ul (setSearchQuery ''f10'' ((tableOf (manyFiles 11))\<lparr>currentPage := 2\<rparr>)) = []
   \<and> totalPages lc ul (setSearchQuery ''f10'' ((tableOf (manyFiles 11))\<lparr>currentPage := 2\<rparr>))
       < currentPage (setSearchQuery ''f10'' ((tableOf (manyFiles 11))\<lparr>currentPage := 2\<rparr>))"
proof -
  let ?app = "(tableOf (manyFiles 11))\<lparr>currentPage := 2\<rparr>"
  let ?s = "setSearchQuery ''f10'' ?app"
  have l0: "length (filteredFiles ul ?app) = 11" by code_simp
  have l1: "length (filteredFiles ul ?s) = 1" by code_simp
  have ne: "fileList ?app \<noteq> []" by code_simp
  have p: "currentPage ?s = 2" "currentPage ?app = 2" by (simp_all add: setSearchQuery_def)
  have t0: "totalPages lc ul ?app = 2"
    using l0 by (simp add: totalPages_eq length_sortedFiles)
  have t1: "totalPages lc ul ?s = 1"
    using l1 by (simp add: totalPages_eq length_sortedFiles)
  have v0: "visibleFiles lc ul ?app \<noteq> []"
  proof -
    have "length (visibleFiles lc ul ?app) = 1"
      using l0 by (simp add: visibleFiles_page length_sortedFiles)
    then show ?thesis by auto
  qed
  have v1: "visibleFiles lc ul ?s = []"
    unfolding visibleFiles_def
    by (rule slice_past_end) (simp_all add: startIndex_def filesPerPage_def p length_sortedFiles l1)
  have f1: "filteredFiles ul ?s \<noteq> []"
    using l1 by auto
  have frame: "currentPage (setSearchQuery q app) = currentPage app
   \<and> sortField (setSearchQuery q app) = sortField app
   \<and> sortDirection (setSearchQuery q app) = sortDirection app
   \<and> fileList (setSearchQuery q app) = fileList app"
    by (simp add: setSearchQuery_def)
  from frame ne t0 v0 f1 v1 t1 p show ?thesis
    by simp
qed

end
